theory Spec2Isabelle
  imports Main "HOL-Library.Word"
begin

section \<open>LinearAllocator: a bump-pointer arena over a chain of pages\<close>

text \<open>
  The embedding follows Source/WebCore/platform/graphics/android/utils/LinearAllocator.cpp.
  The file is written for a 32-bit target (it casts \<open>this\<close> to \<open>unsigned\<close>), so
  \<open>size_t\<close>, \<open>unsigned\<close> and pointers are 32-bit words, and pointer arithmetic on
  \<open>char*\<close> is word addition. The null pointer is the word 0.
\<close>

type_synonym addr = "32 word"

text \<open>
  \<open>class Page\<close> has one data member, the pointer \<open>m_nextPage\<close>, and no virtual
  function: \<open>sizeof(LinearAllocator::Page)\<close> is the size of one pointer.
\<close>

definition sizeof_Page :: "32 word" where
  "sizeof_Page = 4"

definition TARGET_PAGE_SIZE :: "32 word" where
  "TARGET_PAGE_SIZE = 16384"

definition MIN_OBJECT_COUNT :: "32 word" where
  "MIN_OBJECT_COUNT = 4"

text \<open>
  Modelled from the spec: the class declaration (LinearAllocator.h) is not among the
  sources. The members are the five that the constructor initialises and the member
  functions use: the two sizes, taken as 32-bit unsigned like the \<open>size_t\<close> values
  assigned to them, and the three pointers \<open>m_next\<close>, \<open>m_currentPage\<close> and
  \<open>m_pages\<close> (the specification's bump cursor, current page and chain head).

  The record also carries the part of the C++ heap that the allocator owns: \<open>heap\<close>
  maps the address of every Page object that \<open>newPage\<close> has constructed to that page's
  \<open>m_nextPage\<close>. Each such page heads a block of \<open>m_pageSize\<close> bytes.
\<close>

record allocator =
  m_pageSize :: "32 word"
  m_maxAllocSize :: "32 word"
  m_next :: addr
  m_currentPage :: addr
  m_pages :: addr
  heap :: "addr \<rightharpoonup> addr"

text \<open>
  What the code cannot recover from: \<open>malloc\<close> returned NULL and the Page
  constructor stores through it.
\<close>

datatype fault = NullBlock

text \<open>
  The constructor. \<open>usable_page_size\<close> and \<open>pcount\<close> are \<open>int\<close>; the
  division and the product are carried out in \<open>size_t\<close> (the \<open>int\<close> operand is
  converted), and \<open>pcount < MIN_OBJECT_COUNT\<close> compares two \<open>int\<close>s.
\<close>

definition LinearAllocator :: "32 word \<Rightarrow> allocator" where
  "LinearAllocator averageAllocSize =
     (let pageSize =
        (if averageAllocSize \<noteq> 0 then
           (let usable_page_size = TARGET_PAGE_SIZE - sizeof_Page;
                pcount = usable_page_size div averageAllocSize;
                pcount' = (if pcount <s MIN_OBJECT_COUNT then MIN_OBJECT_COUNT else pcount)
            in pcount' * averageAllocSize + sizeof_Page)
         else TARGET_PAGE_SIZE)
      in \<lparr> m_pageSize = pageSize,
           m_maxAllocSize = pageSize - sizeof_Page,
           m_next = 0, m_currentPage = 0, m_pages = 0,
           heap = Map.empty \<rparr>)"

text \<open>
  \<open>LinearAllocator::start\<close> and \<open>LinearAllocator::end\<close>. (The member functions
  \<open>Page::start\<close> and \<open>Page::end\<close> are never called. The destructor walks the
  chain and frees every page; no statement below concerns it.)
\<close>

definition start :: "addr \<Rightarrow> addr" where
  "start p = p + sizeof_Page"

definition end_p :: "allocator \<Rightarrow> addr \<Rightarrow> addr" where
  "end_p a p = p + m_pageSize a"

text \<open>
  \<open>newPage\<close>: \<open>buf\<close> is what \<open>malloc(m_pageSize)\<close> returns in this call; the
  placement-new constructs a Page there with \<open>m_nextPage = 0\<close>.
\<close>

definition newPage :: "allocator \<Rightarrow> addr \<Rightarrow> fault + (addr \<times> allocator)" where
  "newPage a buf =
     (if buf = 0 then Inl NullBlock
      else Inr (buf, a\<lparr>heap := (heap a)(buf \<mapsto> 0)\<rparr>))"

definition setNext :: "allocator \<Rightarrow> addr \<Rightarrow> addr \<Rightarrow> allocator" where
  "setNext a p nxt = a\<lparr>heap := (heap a)(p \<mapsto> nxt)\<rparr>"

definition ensureNext :: "allocator \<Rightarrow> addr \<Rightarrow> 32 word \<Rightarrow> fault + allocator" where
  "ensureNext a buf sz =
     (if m_next a \<noteq> 0 \<and> m_next a + sz \<le> end_p a (m_currentPage a) then Inr a
      else
        (case newPage a buf of
           Inl f \<Rightarrow> Inl f
         | Inr (p, a1) \<Rightarrow>
             (let a2 = (if m_currentPage a1 \<noteq> 0 then setNext a1 (m_currentPage a1) p else a1);
                  a3 = a2\<lparr>m_currentPage := p\<rparr>;
                  a4 = (if m_pages a3 = 0 then a3\<lparr>m_pages := m_currentPage a3\<rparr> else a3)
              in Inr (a4\<lparr>m_next := start (m_currentPage a4)\<rparr>))))"

text \<open>
  \<open>alloc\<close> returns the pointer and the allocator after the call; the null result
  for an oversized request is the pointer 0 (the log line is not modelled).
\<close>

definition alloc :: "allocator \<Rightarrow> addr \<Rightarrow> 32 word \<Rightarrow> fault + (addr \<times> allocator)" where
  "alloc a buf sz =
     (if sz > m_maxAllocSize a then Inr (0, a)
      else
        (case ensureNext a buf sz of
           Inl f \<Rightarrow> Inl f
         | Inr a1 \<Rightarrow> Inr (m_next a1, a1\<lparr>m_next := m_next a1 + sz\<rparr>)))"

definition rewindTo :: "allocator \<Rightarrow> addr \<Rightarrow> allocator" where
  "rewindTo a ptr =
     (if ptr \<ge> start (m_currentPage a) \<and> ptr < end_p a (m_currentPage a)
      then a\<lparr>m_next := ptr\<rparr> else a)"

text \<open>
  \<open>memusage\<close>: the loop follows \<open>m_nextPage\<close> until it reads null. It has no
  value (\<open>None\<close>) when it reads a page that was never constructed or never leaves a
  cyclic chain. The counter is \<open>unsigned\<close>: the additions wrap.
\<close>

partial_function (option) memusage_loop ::
  "(addr \<rightharpoonup> addr) \<Rightarrow> 32 word \<Rightarrow> addr \<Rightarrow> 32 word \<Rightarrow> 32 word option" where
  "memusage_loop h pageSize p acc =
     (if p = 0 then Some acc
      else (case h p of None \<Rightarrow> None
            | Some nxt \<Rightarrow> memusage_loop h pageSize nxt (acc + pageSize)))"

definition memusage :: "allocator \<Rightarrow> 32 word option" where
  "memusage a = memusage_loop (heap a) (m_pageSize a) (m_pages a) 0"

section \<open>Specification-level notions\<close>

subsection \<open>The sizing rule as the specification words it\<close>

text \<open>
  The specification's sizing rule over the natural numbers: the number of average-sized
  objects that fit in the target page after the header, floored at four, times the
  average size, plus the header; the target page size when no hint is given.
\<close>

definition spec_count :: "nat \<Rightarrow> nat" where
  "spec_count avg = max 4 ((16384 - 4) div avg)"

definition spec_pageSize :: "nat \<Rightarrow> nat" where
  "spec_pageSize avg = (if avg = 0 then 16384 else spec_count avg * avg + 4)"

subsection \<open>The page chain\<close>

text \<open>
  \<open>chain h p ps\<close>: following \<open>m_nextPage\<close> from \<open>p\<close> visits exactly the
  pages \<open>ps\<close>, in this order, and then reads null.
\<close>

fun chain :: "(addr \<rightharpoonup> addr) \<Rightarrow> addr \<Rightarrow> addr list \<Rightarrow> bool" where
  "chain h p [] = (p = 0)"
| "chain h p (q # qs) =
     (p = q \<and> q \<noteq> 0 \<and> (case h q of None \<Rightarrow> False | Some nxt \<Rightarrow> chain h nxt qs))"

subsection \<open>A successful block allocation\<close>

text \<open>
  What a successful \<open>malloc(m_pageSize)\<close> hands to \<open>newPage\<close>: a non-null block
  of \<open>m_pageSize\<close> bytes that overlaps no page of the arena. The test in
  \<open>ensureNext\<close> forms \<open>(char*)m_next + size\<close> before comparing it with the page's
  end, so the sum may point up to \<open>m_maxAllocSize\<close> bytes past the block; the block
  lies low enough in the 32-bit address space for that sum not to wrap.
\<close>

definition block_ok :: "allocator \<Rightarrow> addr \<Rightarrow> bool" where
  "block_ok a buf \<longleftrightarrow>
     buf \<noteq> 0 \<and>
     unat buf + unat (m_pageSize a) + unat (m_maxAllocSize a) < 2 ^ 32 \<and>
     (\<forall>p \<in> dom (heap a).
        unat p + unat (m_pageSize a) \<le> unat buf \<or> unat buf + unat (m_pageSize a) \<le> unat p)"

subsection \<open>The state invariant\<close>

text \<open>
  \<open>sizes_ok\<close>: a page holds its header, \<open>m_maxAllocSize\<close> is the rest of the page,
  and two pages fit the address space. \<open>pages_ok\<close>: every page of the arena is a
  block as \<open>block_ok\<close> describes, and the blocks are pairwise disjoint.
  \<open>chain_ok\<close>: the chain from \<open>m_pages\<close> visits every page once and
  \<open>m_currentPage\<close> is its last page (null for the empty chain).
  \<open>cursor_ok\<close>: a non-null \<open>m_next\<close> lies between \<open>start(m_currentPage)\<close>
  and \<open>end(m_currentPage)\<close>, both as the code computes them.
\<close>

definition sizes_ok :: "allocator \<Rightarrow> bool" where
  "sizes_ok a \<longleftrightarrow>
     sizeof_Page \<le> m_pageSize a \<and>
     m_maxAllocSize a = m_pageSize a - sizeof_Page \<and>
     unat (m_pageSize a) + unat (m_maxAllocSize a) < 2 ^ 32"

definition pages_ok :: "allocator \<Rightarrow> bool" where
  "pages_ok a \<longleftrightarrow>
     (\<forall>p \<in> dom (heap a).
        p \<noteq> 0 \<and> unat p + unat (m_pageSize a) + unat (m_maxAllocSize a) < 2 ^ 32) \<and>
     (\<forall>p \<in> dom (heap a). \<forall>q \<in> dom (heap a). p \<noteq> q \<longrightarrow>
        unat p + unat (m_pageSize a) \<le> unat q \<or> unat q + unat (m_pageSize a) \<le> unat p)"

definition chain_ok :: "allocator \<Rightarrow> addr list \<Rightarrow> bool" where
  "chain_ok a ps \<longleftrightarrow>
     chain (heap a) (m_pages a) ps \<and> distinct ps \<and> set ps = dom (heap a) \<and>
     m_currentPage a = (if ps = [] then 0 else last ps)"

definition cursor_ok :: "allocator \<Rightarrow> bool" where
  "cursor_ok a \<longleftrightarrow>
     (m_next a \<noteq> 0 \<longrightarrow>
        start (m_currentPage a) \<le> m_next a \<and> m_next a \<le> end_p a (m_currentPage a))"

definition arena_inv :: "allocator \<Rightarrow> bool" where
  "arena_inv a \<longleftrightarrow> sizes_ok a \<and> pages_ok a \<and> (\<exists>ps. chain_ok a ps) \<and> cursor_ok a"

text \<open>
  The allocator as \<open>ensureNext\<close> leaves it when it takes the new page \<open>buf\<close>
  (lemma \<open>ensureNext_new\<close> below).
\<close>

definition grow :: "allocator \<Rightarrow> addr \<Rightarrow> allocator" where
  "grow a buf =
     a\<lparr>heap := (if m_currentPage a \<noteq> 0 then (heap a)(buf \<mapsto> 0, m_currentPage a \<mapsto> buf)
                 else (heap a)(buf \<mapsto> 0)),
       m_currentPage := buf,
       m_pages := (if m_pages a = 0 then buf else m_pages a),
       m_next := start buf\<rparr>"

subsection \<open>Reachable arenas and their live regions\<close>

text \<open>
  Hints below \<open>2 ^ 29\<close> give a page size of which two pages fit the address space;
  with a larger page no block satisfies \<open>block_ok\<close>.
\<close>

definition sane_hint :: "32 word \<Rightarrow> bool" where
  "sane_hint avg \<longleftrightarrow> unat avg < 2 ^ 29"

text \<open>
  A live region is recorded as (page it was carved from, pointer returned, size).
  \<open>rewindTo a p\<close>, when the code honours it, abandons the regions of the current page
  that end above \<open>p\<close>; the others survive.
\<close>

type_synonym region = "addr \<times> addr \<times> 32 word"

definition surviving :: "allocator \<Rightarrow> addr \<Rightarrow> region list \<Rightarrow> region list" where
  "surviving a p L =
     (if start (m_currentPage a) \<le> p \<and> p < end_p a (m_currentPage a)
      then filter (\<lambda>(pg, q, n). \<not> (pg = m_currentPage a \<and> unat p < unat q + unat n)) L
      else L)"

text \<open>
  \<open>reach a L\<close>: the allocator \<open>a\<close> results from the constructor by calls of
  \<open>alloc\<close> (each with a block that \<open>malloc\<close> could return) and of \<open>rewindTo\<close>
  (with any pointer, once a page exists), and \<open>L\<close> lists the regions returned by
  \<open>alloc\<close> and not abandoned since, the latest first. Before the first page exists
  \<open>start(NULL)\<close> and \<open>end(NULL)\<close> are the bare offsets \<open>sizeof(Page)\<close> and
  \<open>m_pageSize\<close>; a \<open>rewindTo\<close> there is not a step of \<open>reach\<close>.
\<close>

inductive reach :: "allocator \<Rightarrow> region list \<Rightarrow> bool" where
  reach_new: "sane_hint avg \<Longrightarrow> reach (LinearAllocator avg) []"
| reach_alloc: "reach a L \<Longrightarrow> block_ok a buf \<Longrightarrow> alloc a buf sz = Inr (ptr, a') \<Longrightarrow>
     reach a' (if ptr = 0 then L else (m_currentPage a', ptr, sz) # L)"
| reach_rewind: "reach a L \<Longrightarrow> m_currentPage a \<noteq> 0 \<Longrightarrow>
     reach (rewindTo a p) (surviving a p L)"

definition backed :: "allocator \<Rightarrow> bool" where
  "backed a \<longleftrightarrow> (m_next a \<noteq> 0) = (m_currentPage a \<noteq> 0)"

definition below :: "region \<Rightarrow> region \<Rightarrow> bool" where
  "below r1 r2 \<longleftrightarrow> (case (r1, r2) of ((pg1, q1, n1), (pg2, q2, n2)) \<Rightarrow>
      pg1 = pg2 \<longrightarrow> unat q2 + unat n2 \<le> unat q1)"

definition live_ok :: "allocator \<Rightarrow> region list \<Rightarrow> bool" where
  "live_ok a L \<longleftrightarrow>
     (\<forall>(pg, q, n) \<in> set L. pg \<in> dom (heap a) \<and> unat pg + 4 \<le> unat q \<and>
         unat q + unat n \<le> unat pg + unat (m_pageSize a)) \<and>
     (\<forall>(pg, q, n) \<in> set L. pg = m_currentPage a \<longrightarrow> unat q + unat n \<le> unat (m_next a)) \<and>
     sorted_wrt below L"

text \<open>The bytes of the regions in \<open>L\<close> that were carved from page \<open>pg\<close>.\<close>

definition carved :: "addr \<Rightarrow> region list \<Rightarrow> nat" where
  "carved pg L = sum_list (map (\<lambda>(pg', q, n). if pg' = pg then unat n else 0) L)"

text \<open>The arena after \<open>alloc(100)\<close> on a fresh default arena whose page is at 0x1000.\<close>

abbreviation (input) one_alloc :: allocator where
  "one_alloc \<equiv> \<lparr> m_pageSize = 16384, m_maxAllocSize = 16380, m_next = 0x1068,
       m_currentPage = 0x1000, m_pages = 0x1000, heap = [0x1000 \<mapsto> 0] \<rparr>"

subsection \<open>Every arena the interface can produce\<close>

text \<open>
  \<open>fresh_block\<close> is what any successful \<open>malloc(m_pageSize)\<close> returns: a non-null
  block inside the address space that is none of the arena's pages and overlaps none of
  them. \<open>reachable a\<close>: the allocator \<open>a\<close> results from the constructor, with any
  hint, by calls of \<open>alloc\<close> with any size and of \<open>rewindTo\<close> with any pointer.
  \<open>blocks_ok\<close>: the pages are non-null, disjoint blocks inside the address space.
\<close>

definition fresh_block :: "allocator \<Rightarrow> addr \<Rightarrow> bool" where
  "fresh_block a buf \<longleftrightarrow>
     buf \<noteq> 0 \<and> buf \<notin> dom (heap a) \<and>
     unat buf + unat (m_pageSize a) \<le> 2 ^ 32 \<and>
     (\<forall>p \<in> dom (heap a).
        unat p + unat (m_pageSize a) \<le> unat buf \<or> unat buf + unat (m_pageSize a) \<le> unat p)"

inductive reachable :: "allocator \<Rightarrow> bool" where
  reachable_new: "reachable (LinearAllocator avg)"
| reachable_alloc: "reachable a \<Longrightarrow> fresh_block a buf \<Longrightarrow> alloc a buf sz = Inr (ptr, a') \<Longrightarrow>
     reachable a'"
| reachable_rewind: "reachable a \<Longrightarrow> reachable (rewindTo a p)"

definition blocks_ok :: "allocator \<Rightarrow> bool" where
  "blocks_ok a \<longleftrightarrow>
     (\<forall>p \<in> dom (heap a). p \<noteq> 0 \<and> unat p + unat (m_pageSize a) \<le> 2 ^ 32) \<and>
     (\<forall>p \<in> dom (heap a). \<forall>q \<in> dom (heap a). p \<noteq> q \<longrightarrow>
        unat p + unat (m_pageSize a) \<le> unat q \<or> unat q + unat (m_pageSize a) \<le> unat p)"

subsection \<open>The two invariants of the data model\<close>

text \<open>
  \<open>cursor_in_page\<close>: a non-null cursor belongs to a current page and lies in
  \<open>[start(m_currentPage), end(m_currentPage)]\<close>. \<open>current_is_last\<close>:
  \<open>m_currentPage\<close> is the last page of the chain from \<open>m_pages\<close>, null when the chain
  is empty. \<open>arena_ok\<close> adds what makes them inductive: the conditions on sizes and
  pages of \<open>arena_inv\<close>, and that the cursor is null exactly when no page exists.
\<close>

definition cursor_in_page :: "allocator \<Rightarrow> bool" where
  "cursor_in_page a \<longleftrightarrow>
     (m_next a \<noteq> 0 \<longrightarrow>
        m_currentPage a \<noteq> 0 \<and>
        start (m_currentPage a) \<le> m_next a \<and> m_next a \<le> end_p a (m_currentPage a))"

definition current_is_last :: "allocator \<Rightarrow> bool" where
  "current_is_last a \<longleftrightarrow>
     (\<exists>ps. chain (heap a) (m_pages a) ps \<and>
        m_currentPage a = (if ps = [] then 0 else last ps))"

definition arena_ok :: "allocator \<Rightarrow> bool" where
  "arena_ok a \<longleftrightarrow> arena_inv a \<and> backed a"

subsection \<open>Example arenas\<close>

text \<open>
  \<open>two_pages\<close>: \<open>one_alloc\<close> after \<open>alloc(16300)\<close> took a second page at 0x8000.
  \<open>top1\<close>, \<open>top2\<close>: a default arena whose page is at 0xFFFFB000, after one and
  after two calls of \<open>alloc(16000)\<close>. \<open>zero1\<close>, \<open>zero2\<close>: the arena built with
  the hint \<open>2 ^ 30 - 1\<close>, after one and after two calls of \<open>alloc(0)\<close>.
\<close>

abbreviation (input) two_pages :: allocator where
  "two_pages \<equiv> \<lparr> m_pageSize = 16384, m_maxAllocSize = 16380, m_next = 0xBFB0,
       m_currentPage = 0x8000, m_pages = 0x1000, heap = [0x8000 \<mapsto> 0, 0x1000 \<mapsto> 0x8000] \<rparr>"

abbreviation (input) top1 :: allocator where
  "top1 \<equiv> \<lparr> m_pageSize = 16384, m_maxAllocSize = 16380, m_next = 0xFFFFEE84,
       m_currentPage = 0xFFFFB000, m_pages = 0xFFFFB000, heap = [0xFFFFB000 \<mapsto> 0] \<rparr>"

abbreviation (input) top2 :: allocator where
  "top2 \<equiv> \<lparr> m_pageSize = 16384, m_maxAllocSize = 16380, m_next = 0x2D04,
       m_currentPage = 0xFFFFB000, m_pages = 0xFFFFB000, heap = [0xFFFFB000 \<mapsto> 0] \<rparr>"

abbreviation (input) zero1 :: allocator where
  "zero1 \<equiv> \<lparr> m_pageSize = 0, m_maxAllocSize = 0xFFFFFFFC, m_next = 0x1004,
       m_currentPage = 0x1000, m_pages = 0x1000, heap = [0x1000 \<mapsto> 0] \<rparr>"

abbreviation (input) zero2 :: allocator where
  "zero2 \<equiv> \<lparr> m_pageSize = 0, m_maxAllocSize = 0xFFFFFFFC, m_next = 0x8004,
       m_currentPage = 0x8000, m_pages = 0x1000,
       heap = [0x8000 \<mapsto> 0, 0x1000 \<mapsto> 0x8000] \<rparr>"

section \<open>Auxiliary lemmas\<close>

lemma sizes_nat:
  assumes "sizes_ok a"
  shows "4 \<le> unat (m_pageSize a)" "unat (m_maxAllocSize a) = unat (m_pageSize a) - 4"
    "2 * unat (m_pageSize a) < 2 ^ 32 + 4"
proof -
  from assms have le: "(4::32 word) \<le> m_pageSize a" and mx: "m_maxAllocSize a = m_pageSize a - 4"
    and s: "unat (m_pageSize a) + unat (m_maxAllocSize a) < 2 ^ 32"
    by (auto simp add: sizes_ok_def sizeof_Page_def)
  from le show 1: "4 \<le> unat (m_pageSize a)" by (simp add: word_le_nat_alt)
  from le mx show 2: "unat (m_maxAllocSize a) = unat (m_pageSize a) - 4"
    by (simp add: unat_sub)
  from 1 2 s show "2 * unat (m_pageSize a) < 2 ^ 32 + 4" by simp
qed

lemma chain_head: "chain h p ps \<Longrightarrow> (p = 0) = (ps = [])"
  by (cases ps) auto

lemma chain_nonzero: "chain h p ps \<Longrightarrow> 0 \<notin> set ps"
  by (induction ps arbitrary: p) (auto split: option.splits)

lemma chain_functional: "chain h p ps \<Longrightarrow> chain h p qs \<Longrightarrow> ps = qs"
proof (induction ps arbitrary: p qs)
  case Nil
  then show ?case by (cases qs) auto
next
  case (Cons x xs)
  then show ?case by (cases qs) (auto split: option.splits)
qed

lemma current_page:
  assumes "chain_ok a ps"
  shows "m_currentPage a = 0 \<or> m_currentPage a \<in> dom (heap a)"
    "(m_currentPage a = 0) = (m_pages a = 0)" "(m_pages a = 0) = (dom (heap a) = {})"
proof -
  from assms have c: "chain (heap a) (m_pages a) ps" and s: "set ps = dom (heap a)"
    and l: "m_currentPage a = (if ps = [] then 0 else last ps)"
    by (simp_all add: chain_ok_def)
  show "m_currentPage a = 0 \<or> m_currentPage a \<in> dom (heap a)"
    using l s by (cases "ps = []") (simp, metis last_in_set)
  have nz: "0 \<notin> set ps" using c by (rule chain_nonzero)
  show "(m_currentPage a = 0) = (m_pages a = 0)"
    using l nz chain_head[OF c] by (cases "ps = []") (simp, metis last_in_set)
  show "(m_pages a = 0) = (dom (heap a) = {})"
    using chain_head[OF c] s by (auto simp del: dom_eq_empty_conv)
qed

lemma page_bounds:
  assumes "sizes_ok a" "pages_ok a" "chain_ok a ps"
  shows "unat (m_currentPage a) + unat (m_pageSize a) + unat (m_maxAllocSize a) < 2 ^ 32"
    "unat (start (m_currentPage a)) = unat (m_currentPage a) + 4"
    "unat (end_p a (m_currentPage a)) = unat (m_currentPage a) + unat (m_pageSize a)"
proof -
  show 1: "unat (m_currentPage a) + unat (m_pageSize a) + unat (m_maxAllocSize a) < 2 ^ 32"
    using current_page(1)[OF assms(3)] assms(1,2)
    by (auto simp: sizes_ok_def pages_ok_def)
  have 4: "4 \<le> unat (m_pageSize a)" using assms(1) by (rule sizes_nat)
  show "unat (start (m_currentPage a)) = unat (m_currentPage a) + 4"
    unfolding start_def sizeof_Page_def using 1 4 by (subst unat_add_lem[THEN iffD1]) simp_all
  show "unat (end_p a (m_currentPage a)) = unat (m_currentPage a) + unat (m_pageSize a)"
    unfolding end_p_def using 1 by (subst unat_add_lem[THEN iffD1]) simp_all
qed

lemma ensureNext_fits:
  "m_next a \<noteq> 0 \<Longrightarrow> m_next a + sz \<le> end_p a (m_currentPage a) \<Longrightarrow> ensureNext a buf sz = Inr a"
  by (simp add: ensureNext_def)

lemma ensureNext_new:
  assumes "\<not> (m_next a \<noteq> 0 \<and> m_next a + sz \<le> end_p a (m_currentPage a))" "buf \<noteq> 0"
  shows "ensureNext a buf sz =
     Inr (a\<lparr>heap := (if m_currentPage a \<noteq> 0 then (heap a)(buf \<mapsto> 0, m_currentPage a \<mapsto> buf)
                       else (heap a)(buf \<mapsto> 0)),
             m_currentPage := buf,
             m_pages := (if m_pages a = 0 then buf else m_pages a),
             m_next := start buf\<rparr>)"
  using assms by (auto simp add: ensureNext_def newPage_def setNext_def Let_def)

lemma fits_nat:
  assumes "sizes_ok a" "pages_ok a" "chain_ok a ps" "cursor_ok a"
    and "sz \<le> m_maxAllocSize a" "m_next a \<noteq> 0"
  shows "unat (m_next a + sz) = unat (m_next a) + unat sz"
    "(m_next a + sz \<le> end_p a (m_currentPage a)) =
       (unat (m_next a) + unat sz \<le> unat (m_currentPage a) + unat (m_pageSize a))"
    "unat (m_currentPage a) + 4 \<le> unat (m_next a)"
    "unat (m_next a) \<le> unat (m_currentPage a) + unat (m_pageSize a)"
proof -
  note pb = page_bounds[OF assms(1-3)]
  from assms(4,6) have "start (m_currentPage a) \<le> m_next a" "m_next a \<le> end_p a (m_currentPage a)"
    by (simp_all add: cursor_ok_def)
  then show lo: "unat (m_currentPage a) + 4 \<le> unat (m_next a)"
    and hi: "unat (m_next a) \<le> unat (m_currentPage a) + unat (m_pageSize a)"
    using pb by (simp_all add: word_le_nat_alt)
  from assms(5) have sz: "unat sz \<le> unat (m_maxAllocSize a)" by (simp add: word_le_nat_alt)
  show s: "unat (m_next a + sz) = unat (m_next a) + unat sz"
    using hi sz pb(1) by (subst unat_add_lem[THEN iffD1]) simp_all
  show "(m_next a + sz \<le> end_p a (m_currentPage a)) =
       (unat (m_next a) + unat sz \<le> unat (m_currentPage a) + unat (m_pageSize a))"
    by (simp add: word_le_nat_alt s pb)
qed

lemma chain_append:
  "chain h p ps \<Longrightarrow> ps \<noteq> [] \<Longrightarrow> distinct ps \<Longrightarrow> buf \<notin> set ps \<Longrightarrow> buf \<noteq> 0 \<Longrightarrow>
   chain (h(buf \<mapsto> 0, last ps \<mapsto> buf)) p (ps @ [buf])"
proof (induction ps arbitrary: p)
  case Nil
  then show ?case by simp
next
  case (Cons x xs)
  from Cons.prems(1) obtain nxt where px: "p = x" "x \<noteq> 0" and hx: "h x = Some nxt"
    and c: "chain h nxt xs"
    by (auto split: option.splits)
  have xb: "x \<noteq> buf" using Cons.prems(4) by auto
  show ?case
  proof (cases "xs = []")
    case True
    with c have "nxt = 0" by simp
    with True px hx xb Cons.prems(5) show ?thesis by simp
  next
    case False
    have xl: "x \<noteq> last xs" using Cons.prems(3) False by (metis distinct.simps(2) last_in_set)
    have d: "distinct xs" "buf \<notin> set xs" using Cons.prems(3,4) by auto
    define H where "H = h(buf \<mapsto> 0, last xs \<mapsto> buf)"
    have "chain H nxt (xs @ [buf])"
      unfolding H_def by (rule Cons.IH[OF c False d Cons.prems(5)])
    moreover have "H x = Some nxt" using hx xl xb by (simp add: H_def)
    ultimately have ch: "chain H p ((x # xs) @ [buf])" using px by simp
    have l: "last (x # xs) = last xs" using False by simp
    show ?thesis unfolding l using ch[unfolded H_def] .
  qed
qed

lemma memusage_loop_chain:
  "chain h p ps \<Longrightarrow> memusage_loop h P p acc = Some (acc + of_nat (length ps) * P)"
proof (induction ps arbitrary: p acc)
  case Nil
  then show ?case by (subst memusage_loop.simps) simp
next
  case (Cons x xs)
  from Cons.prems obtain nxt where px: "p = x" "x \<noteq> 0" and hx: "h x = Some nxt"
      and c: "chain h nxt xs"
      by (auto split: option.splits)
  show ?case
    by (subst memusage_loop.simps) (simp add: px hx Cons.IH[OF c] algebra_simps)
qed

lemma pages_fit:
  assumes "sizes_ok a" "pages_ok a" "finite (dom (heap a))"
  shows "card (dom (heap a)) * unat (m_pageSize a) < 2 ^ 32"
proof -
  let ?P = "unat (m_pageSize a)"
  let ?B = "\<lambda>p::addr. {unat p ..< unat p + ?P}"
  let ?D = "dom (heap a)"
  have sub: "(\<Union>p\<in>?D. ?B p) \<subseteq> {1 ..< 2 ^ 32}"
  proof
    fix x assume "x \<in> (\<Union>p\<in>?D. ?B p)"
    then obtain p where p: "p \<in> ?D" "unat p \<le> x" "x < unat p + ?P" by auto
    from assms(2) have "\<forall>p\<in>?D. p \<noteq> 0 \<and> unat p + ?P + unat (m_maxAllocSize a) < 2 ^ 32"
      by (simp add: pages_ok_def)
    with p(1) have "p \<noteq> 0" "unat p + ?P + unat (m_maxAllocSize a) < 2 ^ 32" by blast+
    then have "0 < unat p" "unat p + ?P < 2 ^ 32" by (simp_all add: unat_gt_0)
    with p show "x \<in> {1 ..< 2 ^ 32}" by simp
  qed
  have disj: "\<forall>p\<in>?D. \<forall>q\<in>?D. p \<noteq> q \<longrightarrow> ?B p \<inter> ?B q = {}"
  proof (intro ballI impI)
    fix p q assume pq: "p \<in> ?D" "q \<in> ?D" "p \<noteq> q"
    from assms(2) have "\<forall>p\<in>?D. \<forall>q\<in>?D. p \<noteq> q \<longrightarrow> unat p + ?P \<le> unat q \<or> unat q + ?P \<le> unat p"
      by (simp add: pages_ok_def)
    with pq have "unat p + ?P \<le> unat q \<or> unat q + ?P \<le> unat p" by blast
    then show "?B p \<inter> ?B q = {}" by auto
  qed
  have "card (\<Union>p\<in>?D. ?B p) = (\<Sum>p\<in>?D. card (?B p))"
    by (rule card_UN_disjoint[OF assms(3) _ disj]) simp
  also have "\<dots> = card ?D * ?P" by simp
  finally have "card ?D * ?P = card (\<Union>p\<in>?D. ?B p)" by simp
  also have "\<dots> \<le> card {1::nat ..< 2 ^ 32}" using sub by (intro card_mono) auto
  finally show ?thesis by simp
qed

lemma grow_fields [simp]:
  "m_pageSize (grow a buf) = m_pageSize a"
  "m_maxAllocSize (grow a buf) = m_maxAllocSize a"
  "m_currentPage (grow a buf) = buf"
  "m_next (grow a buf) = start buf"
  "m_pages (grow a buf) = (if m_pages a = 0 then buf else m_pages a)"
  by (simp_all add: grow_def)

lemma next_update [simp]:
  "sizes_ok (a\<lparr>m_next := x\<rparr>) = sizes_ok a"
  "pages_ok (a\<lparr>m_next := x\<rparr>) = pages_ok a"
  "chain_ok (a\<lparr>m_next := x\<rparr>) ps = chain_ok a ps"
  by (simp_all add: sizes_ok_def pages_ok_def chain_ok_def)

lemma sizes_ok_grow [simp]: "sizes_ok (grow a buf) = sizes_ok a"
  by (simp add: sizes_ok_def)

lemma alloc_fits:
  assumes "sizes_ok a" "pages_ok a" "chain_ok a ps" "cursor_ok a"
    and "sz \<le> m_maxAllocSize a" "m_next a \<noteq> 0"
    and "unat (m_next a) + unat sz \<le> unat (m_currentPage a) + unat (m_pageSize a)"
  shows "alloc a buf sz = Inr (m_next a, a\<lparr>m_next := m_next a + sz\<rparr>)"
proof -
  have "m_next a + sz \<le> end_p a (m_currentPage a)"
    using fits_nat(2)[OF assms(1-6)] assms(7) by simp
  then have "ensureNext a buf sz = Inr a" using assms(6) by (simp add: ensureNext_fits)
  moreover have "\<not> m_maxAllocSize a < sz" using assms(5) by simp
  ultimately show ?thesis by (simp add: alloc_def)
qed

lemma alloc_new:
  assumes "sizes_ok a" "pages_ok a" "chain_ok a ps" "cursor_ok a"
    and "sz \<le> m_maxAllocSize a" "buf \<noteq> 0"
    and "m_next a = 0 \<or> unat (m_currentPage a) + unat (m_pageSize a) < unat (m_next a) + unat sz"
  shows "alloc a buf sz = Inr (start buf, (grow a buf)\<lparr>m_next := start buf + sz\<rparr>)"
proof -
  have "\<not> (m_next a \<noteq> 0 \<and> m_next a + sz \<le> end_p a (m_currentPage a))"
  proof (cases "m_next a = 0")
    case True
    then show ?thesis by simp
  next
    case False
    with fits_nat(2)[OF assms(1-5) False] assms(7) show ?thesis by simp
  qed
  then have "ensureNext a buf sz = Inr (grow a buf)"
    using assms(6) unfolding grow_def by (rule ensureNext_new)
  moreover have "\<not> m_maxAllocSize a < sz" using assms(5) by simp
  ultimately show ?thesis by (simp add: alloc_def)
qed

lemma dom_grow:
  assumes "chain_ok a ps"
  shows "dom (heap (grow a buf)) = insert buf (dom (heap a))"
  using current_page(1)[OF assms] by (auto simp: grow_def)

lemma inv_fits:
  assumes "sizes_ok a" "pages_ok a" "chain_ok a ps" "cursor_ok a"
    and "sz \<le> m_maxAllocSize a" "m_next a \<noteq> 0"
    and "unat (m_next a) + unat sz \<le> unat (m_currentPage a) + unat (m_pageSize a)"
  shows "sizes_ok (a\<lparr>m_next := m_next a + sz\<rparr>)" "pages_ok (a\<lparr>m_next := m_next a + sz\<rparr>)"
    "chain_ok (a\<lparr>m_next := m_next a + sz\<rparr>) ps" "cursor_ok (a\<lparr>m_next := m_next a + sz\<rparr>)"
proof -
  show "sizes_ok (a\<lparr>m_next := m_next a + sz\<rparr>)" using assms(1) by simp
  show "pages_ok (a\<lparr>m_next := m_next a + sz\<rparr>)" using assms(2) by simp
  show "chain_ok (a\<lparr>m_next := m_next a + sz\<rparr>) ps" using assms(3) by simp
  note f = fits_nat[OF assms(1-6)]
  note pb = page_bounds[OF assms(1-3)]
  have "start (m_currentPage a) \<le> m_next a + sz" "m_next a + sz \<le> end_p a (m_currentPage a)"
    using f pb assms(7) by (simp_all add: word_le_nat_alt)
  then show "cursor_ok (a\<lparr>m_next := m_next a + sz\<rparr>)"
    by (simp add: cursor_ok_def end_p_def)
qed

lemma inv_grow:
  assumes "sizes_ok a" "pages_ok a" "chain_ok a ps"
    and "sz \<le> m_maxAllocSize a" "block_ok a buf"
  shows "sizes_ok ((grow a buf)\<lparr>m_next := start buf + sz\<rparr>)"
    "pages_ok ((grow a buf)\<lparr>m_next := start buf + sz\<rparr>)"
    "chain_ok ((grow a buf)\<lparr>m_next := start buf + sz\<rparr>) (ps @ [buf])"
    "cursor_ok ((grow a buf)\<lparr>m_next := start buf + sz\<rparr>)"
    "unat (start buf) = unat buf + 4"
    "unat (start buf + sz) = unat buf + 4 + unat sz"
    "start buf \<noteq> 0"
proof -
  let ?a' = "(grow a buf)\<lparr>m_next := start buf + sz\<rparr>"
  let ?P = "unat (m_pageSize a)"
  from assms(5) have b0: "buf \<noteq> 0" and bh: "unat buf + ?P + unat (m_maxAllocSize a) < 2 ^ 32"
    and bd: "\<forall>p \<in> dom (heap a). unat p + ?P \<le> unat buf \<or> unat buf + ?P \<le> unat p"
    by (simp_all add: block_ok_def)
  note sn = sizes_nat[OF assms(1)]
  have bn: "buf \<notin> dom (heap a)"
  proof
    assume "buf \<in> dom (heap a)"
    with bd have "unat buf + ?P \<le> unat buf" by blast
    with sn(1) show False by simp
  qed
  note dg = dom_grow[OF assms(3), of buf]
  show "sizes_ok ?a'" using assms(1) by simp
  have p1: "\<forall>p \<in> dom (heap ?a').
      p \<noteq> 0 \<and> unat p + unat (m_pageSize ?a') + unat (m_maxAllocSize ?a') < 2 ^ 32"
  proof
    fix p assume "p \<in> dom (heap ?a')"
    then have "p = buf \<or> p \<in> dom (heap a)" using dg by simp
    then show "p \<noteq> 0 \<and> unat p + unat (m_pageSize ?a') + unat (m_maxAllocSize ?a') < 2 ^ 32"
      using b0 bh assms(2) by (auto simp: pages_ok_def)
  qed
  have p2: "\<forall>p \<in> dom (heap ?a'). \<forall>q \<in> dom (heap ?a'). p \<noteq> q \<longrightarrow>
      unat p + unat (m_pageSize ?a') \<le> unat q \<or> unat q + unat (m_pageSize ?a') \<le> unat p"
  proof (intro ballI impI)
    fix p q assume "p \<in> dom (heap ?a')" "q \<in> dom (heap ?a')" and ne: "p \<noteq> q"
    then have pq: "p = buf \<or> p \<in> dom (heap a)" "q = buf \<or> q \<in> dom (heap a)" using dg by simp_all
    from assms(2) have "\<forall>p\<in>dom (heap a). \<forall>q\<in>dom (heap a). p \<noteq> q \<longrightarrow>
         unat p + ?P \<le> unat q \<or> unat q + ?P \<le> unat p"
      by (simp add: pages_ok_def)
    with pq ne bd
    have "unat p + ?P \<le> unat q \<or> unat q + ?P \<le> unat p" by blast
    then show "unat p + unat (m_pageSize ?a') \<le> unat q \<or> unat q + unat (m_pageSize ?a') \<le> unat p"
      by simp
  qed
  show "pages_ok ?a'" unfolding pages_ok_def using p1 p2 by (rule conjI)
  from assms(3) have c: "chain (heap a) (m_pages a) ps" and d: "distinct ps"
    and s: "set ps = dom (heap a)"
    and l: "m_currentPage a = (if ps = [] then 0 else last ps)"
    by (simp_all add: chain_ok_def)
  have bs: "buf \<notin> set ps" using bn s by simp
  have "chain (heap (grow a buf)) (m_pages (grow a buf)) (ps @ [buf])"
  proof (cases "ps = []")
    case True
    with c l have "m_pages a = 0" "m_currentPage a = 0" by simp_all
    then show ?thesis using True b0 by (simp add: grow_def)
  next
    case False
    with l have cp: "m_currentPage a = last ps" by simp
    have nz: "0 \<notin> set ps" using c by (rule chain_nonzero)
    with False have cp0: "m_currentPage a \<noteq> 0" unfolding cp by (metis last_in_set)
    have mp: "m_pages a \<noteq> 0" using chain_head[OF c] False by simp
    have h: "heap (grow a buf) = (heap a)(buf \<mapsto> 0, last ps \<mapsto> buf)"
      using cp0 cp by (simp add: grow_def)
    show ?thesis unfolding h using mp chain_append[OF c False d bs b0] by simp
  qed
  then show "chain_ok ?a' (ps @ [buf])"
    using d bs s dg by (simp add: chain_ok_def)
  from assms(4) have sz: "unat sz \<le> unat (m_maxAllocSize a)" by (simp add: word_le_nat_alt)
  show u1: "unat (start buf) = unat buf + 4"
    unfolding start_def sizeof_Page_def using bh sn by (subst unat_add_lem[THEN iffD1]) simp_all
  show u2: "unat (start buf + sz) = unat buf + 4 + unat sz"
    using bh sn sz u1 by (subst unat_add_lem[THEN iffD1]) simp_all
  have u3: "unat (end_p ?a' buf) = unat buf + ?P"
    unfolding end_p_def using bh by (subst unat_add_lem[THEN iffD1]) simp_all
  have "4 + unat sz \<le> ?P" using sz sn by arith
  then show "cursor_ok ?a'"
    using u1 u2 u3 by (simp add: cursor_ok_def word_le_nat_alt)
  show "start buf \<noteq> 0" using u1 by (metis add_is_0 unat_0 zero_neq_numeral)
qed

lemma sint_small:
  fixes w :: "32 word"
  assumes "unat w < 2 ^ 31"
  shows "sint w = int (unat w)"
proof -
  have "int (unat w) < int (2 ^ 31)" using assms by (simp only: of_nat_less_iff)
  moreover have u: "int (unat w) = uint w" by (rule of_nat_unat)
  moreover have "int (2 ^ 31) = 2 ^ 31" by simp
  ultimately have lt: "uint w < 2 ^ 31" by (simp only:)
  have "- (2 ^ 31) \<le> uint w" by (rule order_trans[of _ 0]) simp_all
  then have s: "signed_take_bit 31 (uint w) = uint w"
    using lt by (rule signed_take_bit_int_eq_self)
  have "sint w = signed_take_bit (LENGTH(32) - Suc 0) (uint w)" by (rule sint_uint)
  also have "LENGTH(32) - Suc 0 = 31" by simp
  finally have "sint w = uint w" using s by (simp only:)
  then show ?thesis by (simp only: u)
qed

lemma pcount_nat:
  fixes avg :: "32 word"
  assumes "avg \<noteq> 0"
  shows "unat ((TARGET_PAGE_SIZE - sizeof_Page) div avg) = 16380 div unat avg"
  by (simp add: unat_div TARGET_PAGE_SIZE_def sizeof_Page_def)

lemma unat_mul_add:
  fixes x y c :: "32 word"
  shows "unat (x * y + c) = (unat x * unat y + unat c) mod 2 ^ 32"
proof -
  have "unat (x * y + c) = (unat (x * y) + unat c) mod 2 ^ 32"
    by (simp add: unat_word_ariths(1))
  also have "unat (x * y) = unat x * unat y mod 2 ^ 32"
    by (simp add: unat_word_ariths(2))
  finally show ?thesis by (simp add: mod_add_left_eq)
qed

lemma pageSize_mod:
  "unat (m_pageSize (LinearAllocator avg)) = spec_pageSize (unat avg) mod 2 ^ 32"
proof (cases "avg = 0")
  case True
  then show ?thesis by (simp add: LinearAllocator_def spec_pageSize_def TARGET_PAGE_SIZE_def)
next
  case False
  define pc where "pc = (TARGET_PAGE_SIZE - sizeof_Page) div avg"
  define pc' where "pc' = (if pc <s MIN_OBJECT_COUNT then MIN_OBJECT_COUNT else pc)"
  have pc: "unat pc = 16380 div unat avg" unfolding pc_def using False by (rule pcount_nat)
  have "16380 div unat avg \<le> 16380" by (rule div_le_dividend)
  then have "16380 div unat avg < 2 ^ 31" by (rule order.strict_trans1) simp
  with pc have "unat pc < 2 ^ 31" by (simp only:)
  then have "sint pc = int (unat pc)" by (rule sint_small)
  then have "(sint pc < 4) = (unat pc < 4)" by linarith
  then have "(pc <s MIN_OBJECT_COUNT) = (unat pc < 4)"
    by (simp only: word_sless_alt MIN_OBJECT_COUNT_def) simp
  then have pc': "unat pc' = spec_count (unat avg)"
    using pc by (auto simp: pc'_def spec_count_def MIN_OBJECT_COUNT_def max_def)
  have "m_pageSize (LinearAllocator avg) = pc' * avg + 4"
    using False by (simp add: LinearAllocator_def Let_def pc'_def pc_def sizeof_Page_def)
  then have "unat (m_pageSize (LinearAllocator avg)) = (unat pc' * unat avg + unat (4::32 word)) mod 2 ^ 32"
    by (simp only: unat_mul_add)
  also have "\<dots> = (spec_count (unat avg) * unat avg + 4) mod 2 ^ 32"
    by (simp only: pc') simp
  also have "\<dots> = spec_pageSize (unat avg) mod 2 ^ 32"
    using False by (simp add: spec_pageSize_def unat_eq_zero)
  finally show ?thesis .
qed

lemma spec_pageSize_bounds:
  assumes "avg < 2 ^ 30 - 1"
  shows "4 \<le> spec_pageSize avg" "spec_pageSize avg < 2 ^ 32"
proof -
  show "4 \<le> spec_pageSize avg" by (simp add: spec_pageSize_def)
  show "spec_pageSize avg < 2 ^ 32"
  proof (cases "16380 div avg < 4")
    case True
    then show ?thesis using assms by (simp add: spec_pageSize_def spec_count_def max_def)
  next
    case False
    define d where "d = 16380 div avg * avg"
    have le: "d \<le> 16380" unfolding d_def by simp
    have "avg \<noteq> 0" using False by (cases "avg = 0") simp_all
    then have "spec_pageSize avg = d + 4"
      using False by (simp add: spec_pageSize_def spec_count_def max_def d_def)
    with le show ?thesis by simp
  qed
qed

lemma spec_pageSize_small:
  assumes "avg < 2 ^ 29"
  shows "2 * spec_pageSize avg < 2 ^ 32 + 4"
proof (cases "16380 div avg < 4")
  case True
  then show ?thesis using assms by (simp add: spec_pageSize_def spec_count_def max_def)
next
  case False
  define d where "d = 16380 div avg * avg"
  have le: "d \<le> 16380" unfolding d_def by simp
  have "avg \<noteq> 0" using False by (cases "avg = 0") simp_all
  then have "spec_pageSize avg = d + 4"
    using False by (simp add: spec_pageSize_def spec_count_def max_def d_def)
  with le show ?thesis by simp
qed

lemma LinearAllocator_fields [simp]:
  "m_next (LinearAllocator avg) = 0"
  "m_currentPage (LinearAllocator avg) = 0"
  "m_pages (LinearAllocator avg) = 0"
  "heap (LinearAllocator avg) = Map.empty"
  "m_maxAllocSize (LinearAllocator avg) = m_pageSize (LinearAllocator avg) - sizeof_Page"
  by (simp_all add: LinearAllocator_def Let_def)

lemma pageSize_exact:
  assumes "unat avg < 2 ^ 30 - 1"
  shows "unat (m_pageSize (LinearAllocator avg)) = spec_pageSize (unat avg)"
  using spec_pageSize_bounds(2)[OF assms] by (simp only: pageSize_mod mod_less)

lemma sizes_ok_new:
  assumes "sane_hint avg"
  shows "sizes_ok (LinearAllocator avg)"
proof -
  let ?P = "m_pageSize (LinearAllocator avg)"
  from assms have a: "unat avg < 2 ^ 29" by (simp only: sane_hint_def)
  then have "unat avg < 2 ^ 30 - 1" by simp
  then have P: "unat ?P = spec_pageSize (unat avg)" by (rule pageSize_exact)
  have 4: "4 \<le> unat ?P" unfolding P by (simp add: spec_pageSize_def)
  have le: "sizeof_Page \<le> ?P" using 4 by (simp add: word_le_nat_alt sizeof_Page_def)
  then have "unat (?P - sizeof_Page) = unat ?P - 4" by (simp add: unat_sub sizeof_Page_def)
  moreover have "2 * unat ?P < 2 ^ 32 + 4" unfolding P using a by (rule spec_pageSize_small)
  ultimately have "unat ?P + unat (?P - sizeof_Page) < 2 ^ 32" using 4 by simp
  with le show ?thesis by (simp add: sizes_ok_def)
qed

lemma arena_inv_new:
  assumes "sane_hint avg"
  shows "arena_inv (LinearAllocator avg)"
proof -
  have "chain_ok (LinearAllocator avg) []" by (simp add: chain_ok_def)
  then have "\<exists>ps. chain_ok (LinearAllocator avg) ps" ..
  moreover have "pages_ok (LinearAllocator avg)" by (simp add: pages_ok_def)
  moreover have "cursor_ok (LinearAllocator avg)" by (simp add: cursor_ok_def)
  ultimately show ?thesis using sizes_ok_new[OF assms] by (simp add: arena_inv_def)
qed

lemma alloc_cases:
  assumes "arena_inv a" "block_ok a buf"
  obtains
    (big) "m_maxAllocSize a < sz" "alloc a buf sz = Inr (0, a)"
  | (fits) "sz \<le> m_maxAllocSize a" "m_next a \<noteq> 0"
      "unat (m_next a) + unat sz \<le> unat (m_currentPage a) + unat (m_pageSize a)"
      "alloc a buf sz = Inr (m_next a, a\<lparr>m_next := m_next a + sz\<rparr>)"
  | (new) "sz \<le> m_maxAllocSize a"
      "m_next a = 0 \<or> unat (m_currentPage a) + unat (m_pageSize a) < unat (m_next a) + unat sz"
      "alloc a buf sz = Inr (start buf, (grow a buf)\<lparr>m_next := start buf + sz\<rparr>)"
proof -
  from assms(1) obtain ps where i: "sizes_ok a" "pages_ok a" "chain_ok a ps" "cursor_ok a"
    by (auto simp: arena_inv_def)
  from assms(2) have b0: "buf \<noteq> 0" by (simp add: block_ok_def)
  show thesis
  proof (cases "m_maxAllocSize a < sz")
    case True
    then have "alloc a buf sz = Inr (0, a)" by (simp add: alloc_def)
    with True show ?thesis by (rule big)
  next
    case False
    then have le: "sz \<le> m_maxAllocSize a" by simp
    show ?thesis
    proof (cases "m_next a \<noteq> 0 \<and>
        unat (m_next a) + unat sz \<le> unat (m_currentPage a) + unat (m_pageSize a)")
      case True
      then have n: "m_next a \<noteq> 0"
        and f: "unat (m_next a) + unat sz \<le> unat (m_currentPage a) + unat (m_pageSize a)"
        by simp_all
      show ?thesis using le n f alloc_fits[OF i le n f] by (rule fits)
    next
      case False
      then have f: "m_next a = 0 \<or>
          unat (m_currentPage a) + unat (m_pageSize a) < unat (m_next a) + unat sz"
        by auto
      show ?thesis using le f alloc_new[OF i le b0 f] by (rule new)
    qed
  qed
qed

lemma arena_inv_alloc:
  assumes "arena_inv a" "block_ok a buf" "alloc a buf sz = Inr (ptr, a')"
  shows "arena_inv a'"
proof -
  from assms(1) obtain ps where i: "sizes_ok a" "pages_ok a" "chain_ok a ps" "cursor_ok a"
    by (auto simp: arena_inv_def)
  from assms(1,2) show ?thesis
  proof (cases rule: alloc_cases[where sz = sz])
    case big
    with assms(1,3) show ?thesis by simp
  next
    case fits
    with assms(3) have a': "a' = a\<lparr>m_next := m_next a + sz\<rparr>" by auto
    show ?thesis unfolding a' arena_inv_def
      using inv_fits[OF i fits(1-3)] by blast
  next
    case new
    with assms(3) have a': "a' = (grow a buf)\<lparr>m_next := start buf + sz\<rparr>" by auto
    show ?thesis unfolding a' arena_inv_def
      using inv_grow(1-4)[OF i(1-3) new(1) assms(2)] by blast
  qed
qed

lemma alloc_total:
  assumes "arena_inv a" "block_ok a buf"
  shows "\<exists>ptr a'. alloc a buf sz = Inr (ptr, a')"
  using assms by (cases rule: alloc_cases[where sz = sz]) blast+

lemma arena_inv_rewind:
  assumes "arena_inv a"
  shows "arena_inv (rewindTo a p)"
proof (cases "start (m_currentPage a) \<le> p \<and> p < end_p a (m_currentPage a)")
  case True
  then have r: "rewindTo a p = a\<lparr>m_next := p\<rparr>" by (simp add: rewindTo_def)
  from True have "p \<le> end_p a (m_currentPage a)" by (simp add: less_imp_le)
  with True have "cursor_ok (a\<lparr>m_next := p\<rparr>)" by (simp add: cursor_ok_def end_p_def)
  moreover from assms obtain ps where i: "sizes_ok a" "pages_ok a" "chain_ok a ps"
    by (auto simp: arena_inv_def)
  moreover have "chain_ok (a\<lparr>m_next := p\<rparr>) ps" using i(3) by simp
  ultimately show ?thesis unfolding r arena_inv_def by auto
next
  case False
  then have "rewindTo a p = a" by (auto simp: rewindTo_def)
  with assms show ?thesis by simp
qed

lemma live_ok_fits:
  assumes "sizes_ok a" "pages_ok a" "chain_ok a ps" "cursor_ok a" "backed a" "live_ok a L"
    and "sz \<le> m_maxAllocSize a" "m_next a \<noteq> 0"
    and "unat (m_next a) + unat sz \<le> unat (m_currentPage a) + unat (m_pageSize a)"
  shows "live_ok (a\<lparr>m_next := m_next a + sz\<rparr>) ((m_currentPage a, m_next a, sz) # L)"
proof -
  note f = fits_nat[OF assms(1-4,7,8)]
  from assms(5,8) have "m_currentPage a \<noteq> 0" by (simp add: backed_def)
  with current_page(1)[OF assms(3)] have cd: "m_currentPage a \<in> dom (heap a)" by simp
  from assms(6) have
    g1: "\<forall>(pg, q, n) \<in> set L. pg \<in> dom (heap a) \<and> unat pg + 4 \<le> unat q \<and>
         unat q + unat n \<le> unat pg + unat (m_pageSize a)" and
    g2: "\<forall>(pg, q, n) \<in> set L. pg = m_currentPage a \<longrightarrow> unat q + unat n \<le> unat (m_next a)" and
    g3: "sorted_wrt below L"
    by (simp_all add: live_ok_def)
  have "\<forall>r \<in> set L. below (m_currentPage a, m_next a, sz) r"
    using g2 by (auto simp: below_def)
  with g3 have "sorted_wrt below ((m_currentPage a, m_next a, sz) # L)" by simp
  moreover have "\<forall>(pg, q, n) \<in> set L. pg = m_currentPage a \<longrightarrow>
      unat q + unat n \<le> unat (m_next a) + unat sz"
    using g2 by fastforce
  ultimately show ?thesis
    using g1 cd f(1,3) assms(9) by (simp add: live_ok_def)
qed

lemma live_ok_grow:
  assumes "sizes_ok a" "pages_ok a" "chain_ok a ps" "live_ok a L"
    and "sz \<le> m_maxAllocSize a" "block_ok a buf"
  shows "live_ok ((grow a buf)\<lparr>m_next := start buf + sz\<rparr>) ((buf, start buf, sz) # L)"
proof -
  let ?a' = "(grow a buf)\<lparr>m_next := start buf + sz\<rparr>"
  note g = inv_grow[OF assms(1-3,5,6)]
  note dg = dom_grow[OF assms(3), of buf]
  note sn = sizes_nat[OF assms(1)]
  from assms(6) have bd: "\<forall>p \<in> dom (heap a).
      unat p + unat (m_pageSize a) \<le> unat buf \<or> unat buf + unat (m_pageSize a) \<le> unat p"
    by (simp add: block_ok_def)
  have bn: "buf \<notin> dom (heap a)"
  proof
    assume "buf \<in> dom (heap a)"
    with bd have "unat buf + unat (m_pageSize a) \<le> unat buf" by blast
    with sn(1) show False by simp
  qed
  from assms(4) have
    g1: "\<forall>(pg, q, n) \<in> set L. pg \<in> dom (heap a) \<and> unat pg + 4 \<le> unat q \<and>
         unat q + unat n \<le> unat pg + unat (m_pageSize a)" and
    g3: "sorted_wrt below L"
    by (simp_all add: live_ok_def)
  have nb: "\<forall>(pg, q, n) \<in> set L. pg \<noteq> buf" using g1 bn by fastforce
  then have "\<forall>r \<in> set L. below (buf, start buf, sz) r" by (auto simp: below_def)
  with g3 have s: "sorted_wrt below ((buf, start buf, sz) # L)" by simp
  from assms(5) have "unat sz \<le> unat (m_maxAllocSize a)" by (simp add: word_le_nat_alt)
  then have sz: "4 + unat sz \<le> unat (m_pageSize a)" using sn by arith
  have d: "dom (heap ?a') = insert buf (dom (heap a))" using dg by simp
  have 1: "\<forall>(pg, q, n) \<in> set ((buf, start buf, sz) # L). pg \<in> dom (heap ?a') \<and>
      unat pg + 4 \<le> unat q \<and> unat q + unat n \<le> unat pg + unat (m_pageSize ?a')"
    using g1 g(5) sz unfolding d by fastforce
  have 2: "\<forall>(pg, q, n) \<in> set ((buf, start buf, sz) # L). pg = m_currentPage ?a' \<longrightarrow>
      unat q + unat n \<le> unat (m_next ?a')"
    using nb g(5,6) by fastforce
  show ?thesis unfolding live_ok_def using 1 2 s by blast
qed

lemma live_ok_rewind:
  assumes "live_ok a L"
  shows "live_ok (a\<lparr>m_next := p\<rparr>)
     (filter (\<lambda>(pg, q, n). \<not> (pg = m_currentPage a \<and> unat p < unat q + unat n)) L)"
  using assms by (auto simp: live_ok_def sorted_wrt_filter)

lemma reach_inv:
  "reach a L \<Longrightarrow> arena_inv a \<and> backed a \<and> live_ok a L"
proof (induction rule: reach.induct)
  case (reach_new avg)
  then show ?case by (simp add: arena_inv_new backed_def live_ok_def)
next
  case (reach_alloc a L buf sz ptr a')
  then have inv: "arena_inv a" and bk: "backed a" and lv: "live_ok a L" by simp_all
  from inv obtain ps where i: "sizes_ok a" "pages_ok a" "chain_ok a ps" "cursor_ok a"
    by (auto simp: arena_inv_def)
  have inv': "arena_inv a'" using inv reach_alloc.hyps(2,3) by (rule arena_inv_alloc)
  from inv reach_alloc.hyps(2) show ?case
  proof (cases rule: alloc_cases[where sz = sz])
    case big
    with reach_alloc.hyps(3) have "ptr = 0" "a' = a" by simp_all
    with inv bk lv show ?thesis by simp
  next
    case fits
    with reach_alloc.hyps(3) have e: "ptr = m_next a" "a' = a\<lparr>m_next := m_next a + sz\<rparr>"
      by auto
    have "live_ok a' ((m_currentPage a', ptr, sz) # L)"
      unfolding e using live_ok_fits[OF i bk lv fits(1-3)] by simp
    moreover have "m_next a + sz \<noteq> 0"
    proof
      assume "m_next a + sz = 0"
      then have "unat (m_next a + sz) = 0" by simp
      with fits_nat(1,3)[OF i fits(1,2)] show False by simp
    qed
    then have "backed a'" using bk fits(2) unfolding e by (simp add: backed_def)
    ultimately show ?thesis using inv' fits(2) e(1) by simp
  next
    case new
    with reach_alloc.hyps(3)
    have e: "ptr = start buf" "a' = (grow a buf)\<lparr>m_next := start buf + sz\<rparr>" by auto
    from reach_alloc.hyps(2) have b0: "buf \<noteq> 0" by (simp add: block_ok_def)
    have "live_ok a' ((m_currentPage a', ptr, sz) # L)"
      unfolding e using live_ok_grow[OF i(1-3) lv new(1) reach_alloc.hyps(2)] by simp
    moreover have "start buf + sz \<noteq> 0"
    proof
      assume "start buf + sz = 0"
      then have "unat (start buf + sz) = 0" by simp
      with inv_grow(6)[OF i(1-3) new(1) reach_alloc.hyps(2)] show False by simp
    qed
    then have "backed a'" using b0 unfolding e by (simp add: backed_def)
    moreover have "ptr \<noteq> 0" unfolding e
      by (rule inv_grow(7)[OF i(1-3) new(1) reach_alloc.hyps(2)])
    ultimately show ?thesis using inv' by simp
  qed
next
  case (reach_rewind a L p)
  then have inv: "arena_inv a" and bk: "backed a" and lv: "live_ok a L" by simp_all
  have inv': "arena_inv (rewindTo a p)" using inv by (rule arena_inv_rewind)
  show ?case
  proof (cases "start (m_currentPage a) \<le> p \<and> p < end_p a (m_currentPage a)")
    case True
    then have r: "rewindTo a p = a\<lparr>m_next := p\<rparr>" by (simp add: rewindTo_def)
    have s: "surviving a p L =
        filter (\<lambda>(pg, q, n). \<not> (pg = m_currentPage a \<and> unat p < unat q + unat n)) L"
      using True by (simp add: surviving_def)
    have "live_ok (rewindTo a p) (surviving a p L)"
      unfolding r s using lv by (rule live_ok_rewind)
    moreover from inv obtain ps where i: "sizes_ok a" "pages_ok a" "chain_ok a ps"
      by (auto simp: arena_inv_def)
    have "unat (m_currentPage a) + 4 \<le> unat p"
      using True page_bounds(2)[OF i] by (simp add: word_le_nat_alt)
    then have "p \<noteq> 0" by auto
    then have "backed (rewindTo a p)"
      unfolding r using reach_rewind.hyps(2) by (simp add: backed_def)
    ultimately show ?thesis using inv' by simp
  next
    case False
    then have "rewindTo a p = a" "surviving a p L = L"
      by (auto simp: rewindTo_def surviving_def)
    with inv bk lv show ?thesis by simp
  qed
qed

section \<open>An example arena\<close>

lemma one_alloc_eq:
  "alloc (LinearAllocator 0) 0x1000 100 = Inr (0x1004, one_alloc)"
  by (simp add: alloc_def ensureNext_def newPage_def setNext_def LinearAllocator_def Let_def
      start_def end_p_def sizeof_Page_def TARGET_PAGE_SIZE_def)

lemma sane_hint_0: "sane_hint 0"
  by (simp add: sane_hint_def)

lemma block_ok_new: "block_ok (LinearAllocator 0) 0x1000"
  by (simp add: block_ok_def LinearAllocator_def Let_def sizeof_Page_def TARGET_PAGE_SIZE_def)

lemma reach_one_alloc: "reach one_alloc [(0x1000, 0x1004, 100)]"
  using reach_alloc[OF reach_new[OF sane_hint_0] block_ok_new one_alloc_eq] by simp


lemma block_ok_one_alloc: "block_ok one_alloc 0x8000"
  by (simp add: block_ok_def)

section \<open>Sizes do not change after construction\<close>

lemma alloc_sizes:
  assumes "alloc a buf sz = Inr (ptr, a')"
  shows "m_pageSize a' = m_pageSize a \<and> m_maxAllocSize a' = m_maxAllocSize a"
  using assms
  by (auto simp: alloc_def ensureNext_def newPage_def setNext_def Let_def
      split: if_splits sum.splits prod.splits)

lemma rewindTo_sizes:
  "m_pageSize (rewindTo a p) = m_pageSize a \<and> m_maxAllocSize (rewindTo a p) = m_maxAllocSize a"
  by (simp add: rewindTo_def)

section \<open>Further consequences of the invariant\<close>

lemma memusage_next [simp]: "memusage (a\<lparr>m_next := x\<rparr>) = memusage a"
  by (simp add: memusage_def)

lemma memusage_rewindTo: "memusage (rewindTo a p) = memusage a"
  by (simp add: rewindTo_def)

lemma alloc_chain_extends:
  assumes "arena_inv a" "block_ok a buf" "alloc a buf sz = Inr (ptr, a')"
    and "chain (heap a) (m_pages a) ps"
  shows "\<exists>qs. chain (heap a') (m_pages a') (ps @ qs)"
proof -
  from assms(1) obtain ps' where i: "sizes_ok a" "pages_ok a" "chain_ok a ps'" "cursor_ok a"
    by (auto simp: arena_inv_def)
  from i(3) have "chain (heap a) (m_pages a) ps'" by (simp add: chain_ok_def)
  with assms(4) have e: "ps' = ps" by (rule chain_functional[rotated])
  from assms(1,2) show ?thesis
  proof (cases rule: alloc_cases[where sz = sz])
    case big
    with assms(3) have "a' = a" by simp
    with assms(4) have "chain (heap a') (m_pages a') (ps @ [])" by simp
    then show ?thesis ..
  next
    case fits
    with assms(3) have "a' = a\<lparr>m_next := m_next a + sz\<rparr>" by auto
    with assms(4) have "chain (heap a') (m_pages a') (ps @ [])" by simp
    then show ?thesis ..
  next
    case new
    with assms(3) have a': "a' = (grow a buf)\<lparr>m_next := start buf + sz\<rparr>" by auto
    have "chain_ok a' (ps @ [buf])"
      unfolding a' using inv_grow(3)[OF i(1-3) new(1) assms(2)] e by simp
    then have "chain (heap a') (m_pages a') (ps @ [buf])" by (simp add: chain_ok_def)
    then show ?thesis ..
  qed
qed

lemma arena_inv_chain:
  assumes "arena_inv a"
  shows "\<exists>ps. chain (heap a) (m_pages a) ps \<and>
     m_currentPage a = (if ps = [] then 0 else last ps)"
proof -
  from assms obtain ps where "chain_ok a ps" by (auto simp: arena_inv_def)
  then have "chain (heap a) (m_pages a) ps \<and>
     m_currentPage a = (if ps = [] then 0 else last ps)"
    by (simp add: chain_ok_def)
  then show ?thesis ..
qed

lemma memusage_value:
  assumes "arena_inv a"
  shows "memusage a = Some (of_nat (card (dom (heap a))) * m_pageSize a)"
    "unat (of_nat (card (dom (heap a))) * m_pageSize a) =
       card (dom (heap a)) * unat (m_pageSize a)"
    "card (dom (heap a)) * unat (m_pageSize a) < 2 ^ 32"
    "finite (dom (heap a))"
proof -
  from assms obtain ps where i: "sizes_ok a" "pages_ok a" "chain_ok a ps"
    by (auto simp: arena_inv_def)
  from i(3) have c: "chain (heap a) (m_pages a) ps" and d: "distinct ps"
    and s: "set ps = dom (heap a)"
    by (simp_all add: chain_ok_def)
  have n: "length ps = card (dom (heap a))" using d s by (metis distinct_card)
  show fin: "finite (dom (heap a))" using s by (metis List.finite_set)
  show "memusage a = Some (of_nat (card (dom (heap a))) * m_pageSize a)"
    using memusage_loop_chain[OF c, of "m_pageSize a" 0] n by (simp add: memusage_def)
  show b: "card (dom (heap a)) * unat (m_pageSize a) < 2 ^ 32"
    using i(1,2) fin by (rule pages_fit)
  define k where "k = card (dom (heap a))"
  have "1 \<le> unat (m_pageSize a)" using sizes_nat(1)[OF i(1)] by simp
  then have "k * 1 \<le> k * unat (m_pageSize a)" by (rule mult_le_mono2)
  then have "k \<le> k * unat (m_pageSize a)" by simp
  also have "\<dots> < 2 ^ 32" using b unfolding k_def .
  finally have k: "k < 2 ^ 32" .
  have uk: "unat (of_nat k :: 32 word) = k"
    by (rule of_nat_inverse[OF refl]) (use k in simp)
  have "k * unat (m_pageSize a) < 2 ^ LENGTH(32)" using b by (simp add: k_def)
  then have lt: "unat (of_nat k :: 32 word) * unat (m_pageSize a) < 2 ^ LENGTH(32)"
    by (simp only: uk)
  have "unat (of_nat k * m_pageSize a) = unat (of_nat k :: 32 word) * unat (m_pageSize a)"
    using lt by (rule unat_mult_lem[THEN iffD1])
  then have "unat (of_nat k * m_pageSize a) = k * unat (m_pageSize a)" by (simp only: uk)
  then show "unat (of_nat (card (dom (heap a))) * m_pageSize a) =
       card (dom (heap a)) * unat (m_pageSize a)"
    by (simp only: k_def)
qed

lemma alloc_dom_mono:
  assumes "arena_inv a" "block_ok a buf" "alloc a buf sz = Inr (ptr, a')"
  shows "dom (heap a) \<subseteq> dom (heap a')"
proof -
  from assms(1) obtain ps where i: "chain_ok a ps" by (auto simp: arena_inv_def)
  from assms(1,2) show ?thesis
  proof (cases rule: alloc_cases[where sz = sz])
    case big
    with assms(3) show ?thesis by simp
  next
    case fits
    with assms(3) show ?thesis by auto
  next
    case new
    with assms(3) have a': "a' = (grow a buf)\<lparr>m_next := start buf + sz\<rparr>" by auto
    show ?thesis unfolding a' using dom_grow[OF i, of buf] by auto
  qed
qed

lemma alloc_nothing_at_cursor:
  assumes "arena_inv a" "m_next a \<noteq> 0"
  shows "alloc a buf 0 = Inr (m_next a, a)"
proof -
  from assms(1) obtain ps where i: "sizes_ok a" "pages_ok a" "chain_ok a ps" "cursor_ok a"
    by (auto simp: arena_inv_def)
  have z: "(0 :: 32 word) \<le> m_maxAllocSize a" by simp
  have "unat (m_next a) + unat (0 :: 32 word) \<le> unat (m_currentPage a) + unat (m_pageSize a)"
    using fits_nat(4)[OF i z assms(2)] by simp
  from alloc_fits[OF i z assms(2) this] show ?thesis by simp
qed

lemma memusage_empty:
  assumes "m_pages a = 0"
  shows "memusage a = Some 0"
  using assms by (simp add: memusage_def memusage_loop.simps)

lemma alloc_ptr_nonzero:
  assumes "arena_inv a" "block_ok a buf" "sz \<le> m_maxAllocSize a"
    and "alloc a buf sz = Inr (ptr, a')"
  shows "ptr \<noteq> 0"
proof -
  from assms(1) obtain ps where i: "sizes_ok a" "pages_ok a" "chain_ok a ps"
    by (auto simp: arena_inv_def)
  from assms(1,2) show ?thesis
  proof (cases rule: alloc_cases[where sz = sz])
    case big
    with assms(3) show ?thesis by simp
  next
    case fits
    with assms(4) show ?thesis by auto
  next
    case new
    with assms(4) have "ptr = start buf" by simp
    with inv_grow(7)[OF i new(1) assms(2)] show ?thesis by simp
  qed
qed

lemma regions_disjoint:
  assumes "pages_ok a" "live_ok a ((pg0, q0, n0) # L)" "(pg, q, n) \<in> set L"
  shows "unat q + unat n \<le> unat q0 \<or> unat q0 + unat n0 \<le> unat q"
proof -
  let ?P = "unat (m_pageSize a)"
  from assms(2) have
    g1: "\<forall>(pg, q, n) \<in> set ((pg0, q0, n0) # L). pg \<in> dom (heap a) \<and> unat pg + 4 \<le> unat q \<and>
         unat q + unat n \<le> unat pg + ?P" and
    g3: "sorted_wrt below ((pg0, q0, n0) # L)"
    by (simp_all add: live_ok_def)
  from g1 have x: "pg0 \<in> dom (heap a)" "unat pg0 + 4 \<le> unat q0" "unat q0 + unat n0 \<le> unat pg0 + ?P"
    by simp_all
  from g1 assms(3) have r: "pg \<in> dom (heap a)" "unat pg + 4 \<le> unat q" "unat q + unat n \<le> unat pg + ?P"
    by auto
  from g3 assms(3) have b: "below (pg0, q0, n0) (pg, q, n)" by auto
  show ?thesis
  proof (cases "pg0 = pg")
    case True
    with b show ?thesis by (simp add: below_def)
  next
    case False
    from assms(1) have "\<forall>p\<in>dom (heap a). \<forall>q\<in>dom (heap a). p \<noteq> q \<longrightarrow>
        unat p + ?P \<le> unat q \<or> unat q + ?P \<le> unat p"
      by (simp add: pages_ok_def)
    with x(1) r(1) False have "unat pg0 + ?P \<le> unat pg \<or> unat pg + ?P \<le> unat pg0" by blast
    with x r show ?thesis by arith
  qed
qed

lemma carved_Cons:
  "carved pg ((pg', q, n) # L) = (if pg' = pg then unat n else 0) + carved pg L"
  by (simp add: carved_def)

lemma carved_le:
  assumes "sorted_wrt below L"
    and "\<forall>(pg', q, n) \<in> set L. pg' = pg \<longrightarrow> S \<le> unat q \<and> unat q + unat n \<le> B"
    and "S \<le> B"
  shows "carved pg L + S \<le> B"
  using assms
proof (induction L arbitrary: B)
  case Nil
  then show ?case by (simp add: carved_def)
next
  case (Cons r L)
  obtain pg' q n where r: "r = (pg', q, n)" by (cases r)
  from Cons.prems(1) have s: "sorted_wrt below L" and b: "\<forall>x \<in> set L. below r x" by simp_all
  from Cons.prems(2) have t: "\<forall>(pg', q, n) \<in> set L. pg' = pg \<longrightarrow> S \<le> unat q \<and> unat q + unat n \<le> B"
    by simp
  show ?case
  proof (cases "pg' = pg")
    case False
    have "carved pg L + S \<le> B" using s t Cons.prems(3) by (rule Cons.IH)
    with False show ?thesis by (simp add: r carved_Cons)
  next
    case True
    from Cons.prems(2) True have h: "S \<le> unat q" "unat q + unat n \<le> B" by (simp_all add: r)
    have "\<forall>(pg', q', n') \<in> set L. pg' = pg \<longrightarrow> S \<le> unat q' \<and> unat q' + unat n' \<le> unat q"
      using t b True by (fastforce simp: r below_def)
    with s have "carved pg L + S \<le> unat q" using h(1) by (rule Cons.IH)
    with h(2) True show ?thesis by (simp add: r carved_Cons)
  qed
qed

lemma carved_capacity:
  assumes "sizes_ok a" "live_ok a L"
  shows "carved pg L \<le> unat (m_pageSize a) - unat sizeof_Page"
proof -
  from assms(2) have
    g1: "\<forall>(pg, q, n) \<in> set L. pg \<in> dom (heap a) \<and> unat pg + 4 \<le> unat q \<and>
         unat q + unat n \<le> unat pg + unat (m_pageSize a)" and
    g3: "sorted_wrt below L"
    by (simp_all add: live_ok_def)
  have "\<forall>(pg', q, n) \<in> set L. pg' = pg \<longrightarrow>
      unat pg + 4 \<le> unat q \<and> unat q + unat n \<le> unat pg + unat (m_pageSize a)"
    using g1 by fastforce
  with g3 have "carved pg L + (unat pg + 4) \<le> unat pg + unat (m_pageSize a)"
    using sizes_nat(1)[OF assms(1)] by (intro carved_le) simp_all
  then show ?thesis by (simp add: sizeof_Page_def)
qed

section \<open>All reachable arenas, and the strengthened invariant\<close>

lemma alloc_shape:
  assumes "alloc a buf sz = Inr (ptr, a')"
  shows "(\<exists>x. a' = a\<lparr>m_next := x\<rparr>) \<or> a' = a \<or> (buf \<noteq> 0 \<and> (\<exists>x. a' = (grow a buf)\<lparr>m_next := x\<rparr>))"
proof (cases "m_maxAllocSize a < sz")
  case True
  with assms show ?thesis by (simp add: alloc_def)
next
  case False
  show ?thesis
  proof (cases "m_next a \<noteq> 0 \<and> m_next a + sz \<le> end_p a (m_currentPage a)")
    case True
    then have "ensureNext a buf sz = Inr a" by (simp add: ensureNext_fits)
    with assms False have "a' = a\<lparr>m_next := m_next a + sz\<rparr>" by (auto simp: alloc_def)
    then show ?thesis by blast
  next
    case n: False
    show ?thesis
    proof (cases "buf = 0")
      case True
      then have "ensureNext a buf sz = Inl NullBlock" using n by (auto simp: ensureNext_def newPage_def)
      with assms False show ?thesis by (simp add: alloc_def)
    next
      case b: False
      have "ensureNext a buf sz = Inr (grow a buf)"
        using n b unfolding grow_def by (rule ensureNext_new)
      with assms False have "a' = (grow a buf)\<lparr>m_next := start buf + sz\<rparr>"
        by (auto simp: alloc_def)
      with b show ?thesis by blast
    qed
  qed
qed

lemma chain_ok_grow:
  assumes "chain_ok a ps" "buf \<noteq> 0" "buf \<notin> dom (heap a)"
  shows "chain_ok (grow a buf) (ps @ [buf])"
proof -
  from assms(1) have c: "chain (heap a) (m_pages a) ps" and d: "distinct ps"
    and s: "set ps = dom (heap a)"
    and l: "m_currentPage a = (if ps = [] then 0 else last ps)"
    by (simp_all add: chain_ok_def)
  have bs: "buf \<notin> set ps" using assms(3) s by simp
  have "chain (heap (grow a buf)) (m_pages (grow a buf)) (ps @ [buf])"
  proof (cases "ps = []")
    case True
    with c l have "m_pages a = 0" "m_currentPage a = 0" by simp_all
    then show ?thesis using True assms(2) by (simp add: grow_def)
  next
    case False
    with l have cp: "m_currentPage a = last ps" by simp
    have nz: "0 \<notin> set ps" using c by (rule chain_nonzero)
    with False have cp0: "m_currentPage a \<noteq> 0" unfolding cp by (metis last_in_set)
    have mp: "m_pages a \<noteq> 0" using chain_head[OF c] False by simp
    have h: "heap (grow a buf) = (heap a)(buf \<mapsto> 0, last ps \<mapsto> buf)"
      using cp0 cp by (simp add: grow_def)
    show ?thesis unfolding h using mp chain_append[OF c False d bs assms(2)] by simp
  qed
  then show ?thesis using d bs s dom_grow[OF assms(1), of buf] by (simp add: chain_ok_def)
qed

lemma blocks_ok_grow:
  assumes "chain_ok a ps" "blocks_ok a" "fresh_block a buf"
  shows "blocks_ok (grow a buf)"
proof -
  let ?P = "unat (m_pageSize a)"
  let ?D = "dom (heap a)"
  from assms(3) have b0: "buf \<noteq> 0" and bh: "unat buf + ?P \<le> 2 ^ 32"
    and bd: "\<forall>p \<in> ?D. unat p + ?P \<le> unat buf \<or> unat buf + ?P \<le> unat p"
    by (simp_all add: fresh_block_def)
  from assms(2) have
    o1: "\<forall>p \<in> ?D. p \<noteq> 0 \<and> unat p + ?P \<le> 2 ^ 32" and
    o2: "\<forall>p \<in> ?D. \<forall>q \<in> ?D. p \<noteq> q \<longrightarrow> unat p + ?P \<le> unat q \<or> unat q + ?P \<le> unat p"
    by (simp_all add: blocks_ok_def)
  note dg = dom_grow[OF assms(1), of buf]
  have p1: "\<forall>p \<in> dom (heap (grow a buf)).
      p \<noteq> 0 \<and> unat p + unat (m_pageSize (grow a buf)) \<le> 2 ^ 32"
  proof
    fix p assume "p \<in> dom (heap (grow a buf))"
    then have "p = buf \<or> p \<in> ?D" using dg by simp
    then show "p \<noteq> 0 \<and> unat p + unat (m_pageSize (grow a buf)) \<le> 2 ^ 32"
      using b0 bh o1 by auto
  qed
  have p2: "\<forall>p \<in> dom (heap (grow a buf)). \<forall>q \<in> dom (heap (grow a buf)). p \<noteq> q \<longrightarrow>
      unat p + unat (m_pageSize (grow a buf)) \<le> unat q \<or>
      unat q + unat (m_pageSize (grow a buf)) \<le> unat p"
  proof (intro ballI impI)
    fix p q assume "p \<in> dom (heap (grow a buf))" "q \<in> dom (heap (grow a buf))" and ne: "p \<noteq> q"
    then have pq: "p = buf \<or> p \<in> ?D" "q = buf \<or> q \<in> ?D" using dg by simp_all
    with ne bd o2 have "unat p + ?P \<le> unat q \<or> unat q + ?P \<le> unat p" by blast
    then show "unat p + unat (m_pageSize (grow a buf)) \<le> unat q \<or>
        unat q + unat (m_pageSize (grow a buf)) \<le> unat p"
      by simp
  qed
  show ?thesis unfolding blocks_ok_def using p1 p2 by (rule conjI)
qed

lemma blocks_next [simp]: "blocks_ok (a\<lparr>m_next := x\<rparr>) = blocks_ok a"
  by (simp add: blocks_ok_def)

lemma reachable_inv:
  "reachable a \<Longrightarrow> (\<exists>ps. chain_ok a ps) \<and> blocks_ok a"
proof (induction rule: reachable.induct)
  case (reachable_new avg)
  have "chain_ok (LinearAllocator avg) []" by (simp add: chain_ok_def)
  then have "\<exists>ps. chain_ok (LinearAllocator avg) ps" ..
  then show ?case by (simp add: blocks_ok_def)
next
  case (reachable_alloc a buf sz ptr a')
  then obtain ps where c: "chain_ok a ps" and b: "blocks_ok a" by blast
  from alloc_shape[OF reachable_alloc.hyps(3)] show ?case
  proof (elim disjE exE conjE)
    fix x assume "a' = a\<lparr>m_next := x\<rparr>"
    with c b show ?thesis by auto
  next
    assume "a' = a"
    with c b show ?thesis by auto
  next
    fix x assume b0: "buf \<noteq> 0" and a': "a' = (grow a buf)\<lparr>m_next := x\<rparr>"
    from reachable_alloc.hyps(2) have bn: "buf \<notin> dom (heap a)" by (simp add: fresh_block_def)
    have "chain_ok a' (ps @ [buf])" unfolding a' using chain_ok_grow[OF c b0 bn] by simp
    moreover have "blocks_ok a'"
      unfolding a' using blocks_ok_grow[OF c b reachable_alloc.hyps(2)] by simp
    ultimately show ?thesis by blast
  qed
next
  case (reachable_rewind a p)
  then obtain ps where c: "chain_ok a ps" and b: "blocks_ok a" by blast
  have "rewindTo a p = a \<or> rewindTo a p = a\<lparr>m_next := p\<rparr>" by (simp add: rewindTo_def)
  then show ?case using c b by auto
qed

lemma blocks_fit:
  assumes "blocks_ok a" "finite (dom (heap a))"
  shows "card (dom (heap a)) * unat (m_pageSize a) < 2 ^ 32"
proof -
  let ?P = "unat (m_pageSize a)"
  let ?B = "\<lambda>p::addr. {unat p ..< unat p + ?P}"
  let ?D = "dom (heap a)"
  from assms(1) have
    o1: "\<forall>p \<in> ?D. p \<noteq> 0 \<and> unat p + ?P \<le> 2 ^ 32" and
    o2: "\<forall>p \<in> ?D. \<forall>q \<in> ?D. p \<noteq> q \<longrightarrow> unat p + ?P \<le> unat q \<or> unat q + ?P \<le> unat p"
    by (simp_all add: blocks_ok_def)
  have sub: "(\<Union>p\<in>?D. ?B p) \<subseteq> {1 ..< 2 ^ 32}"
  proof
    fix x assume "x \<in> (\<Union>p\<in>?D. ?B p)"
    then obtain p where p: "p \<in> ?D" "unat p \<le> x" "x < unat p + ?P" by auto
    with o1 have "p \<noteq> 0" "unat p + ?P \<le> 2 ^ 32" by blast+
    then have "0 < unat p" "unat p + ?P \<le> 2 ^ 32" by (simp_all add: unat_gt_0)
    with p show "x \<in> {1 ..< 2 ^ 32}" by simp
  qed
  have disj: "\<forall>p\<in>?D. \<forall>q\<in>?D. p \<noteq> q \<longrightarrow> ?B p \<inter> ?B q = {}"
  proof (intro ballI impI)
    fix p q assume pq: "p \<in> ?D" "q \<in> ?D" "p \<noteq> q"
    with o2 have "unat p + ?P \<le> unat q \<or> unat q + ?P \<le> unat p" by blast
    then show "?B p \<inter> ?B q = {}" by auto
  qed
  have "card (\<Union>p\<in>?D. ?B p) = (\<Sum>p\<in>?D. card (?B p))"
    by (rule card_UN_disjoint[OF assms(2) _ disj]) simp
  also have "\<dots> = card ?D * ?P" by simp
  finally have "card ?D * ?P = card (\<Union>p\<in>?D. ?B p)" by simp
  also have "\<dots> \<le> card {1::nat ..< 2 ^ 32}" using sub by (intro card_mono) auto
  finally show ?thesis by simp
qed

lemma memusage_reachable:
  assumes "reachable a"
  shows "memusage a = Some (of_nat (card (dom (heap a))) * m_pageSize a)"
    "unat (of_nat (card (dom (heap a))) * m_pageSize a) =
       card (dom (heap a)) * unat (m_pageSize a)"
    "finite (dom (heap a))"
proof -
  from reachable_inv[OF assms] obtain ps where i: "chain_ok a ps" and b: "blocks_ok a" by blast
  from i have c: "chain (heap a) (m_pages a) ps" and d: "distinct ps"
    and s: "set ps = dom (heap a)"
    by (simp_all add: chain_ok_def)
  have n: "length ps = card (dom (heap a))" using d s by (metis distinct_card)
  show fin: "finite (dom (heap a))" using s by (metis List.finite_set)
  show "memusage a = Some (of_nat (card (dom (heap a))) * m_pageSize a)"
    using memusage_loop_chain[OF c, of "m_pageSize a" 0] n by (simp add: memusage_def)
  have f: "card (dom (heap a)) * unat (m_pageSize a) < 2 ^ 32"
    using b fin by (rule blocks_fit)
  define k where "k = card (dom (heap a))"
  show "unat (of_nat (card (dom (heap a))) * m_pageSize a) =
       card (dom (heap a)) * unat (m_pageSize a)"
  proof (cases "m_pageSize a = 0")
    case True
    then show ?thesis by simp
  next
    case False
    then have "1 \<le> unat (m_pageSize a)" by (simp add: unat_gt_0 Suc_le_eq)
    then have "k * 1 \<le> k * unat (m_pageSize a)" by (rule mult_le_mono2)
    then have "k \<le> k * unat (m_pageSize a)" by simp
    also have "\<dots> < 2 ^ 32" using f unfolding k_def .
    finally have k: "k < 2 ^ 32" .
    have uk: "unat (of_nat k :: 32 word) = k"
      by (rule of_nat_inverse[OF refl]) (use k in simp)
    have "k * unat (m_pageSize a) < 2 ^ LENGTH(32)" using f by (simp add: k_def)
    then have lt: "unat (of_nat k :: 32 word) * unat (m_pageSize a) < 2 ^ LENGTH(32)"
      by (simp only: uk)
    have "unat (of_nat k * m_pageSize a) = unat (of_nat k :: 32 word) * unat (m_pageSize a)"
      using lt by (rule unat_mult_lem[THEN iffD1])
    then have "unat (of_nat k * m_pageSize a) = k * unat (m_pageSize a)" by (simp only: uk)
    then show ?thesis by (simp only: k_def)
  qed
qed

lemma alloc_dom_subset:
  assumes "alloc a buf sz = Inr (ptr, a')" "reachable a"
  shows "dom (heap a) \<subseteq> dom (heap a')"
proof -
  from reachable_inv[OF assms(2)] obtain ps where c: "chain_ok a ps" by blast
  from alloc_shape[OF assms(1)] show ?thesis
  proof (elim disjE exE conjE)
    fix x assume "a' = a\<lparr>m_next := x\<rparr>"
    then show ?thesis by simp
  next
    assume "a' = a"
    then show ?thesis by simp
  next
    fix x assume "buf \<noteq> 0" and a': "a' = (grow a buf)\<lparr>m_next := x\<rparr>"
    show ?thesis unfolding a' using dom_grow[OF c, of buf] by auto
  qed
qed

lemma two_pages_eq: "alloc one_alloc 0x8000 16300 = Inr (0x8004, two_pages)"
  by (simp add: alloc_def ensureNext_def newPage_def setNext_def Let_def
      start_def end_p_def sizeof_Page_def)

lemma fresh_block_new: "fresh_block (LinearAllocator 0) 0x1000"
  by (simp add: fresh_block_def LinearAllocator_def Let_def TARGET_PAGE_SIZE_def)

lemma fresh_block_one_alloc: "fresh_block one_alloc 0x8000"
  by (simp add: fresh_block_def)

lemma reachable_one_alloc: "reachable one_alloc"
  using reachable_alloc[OF reachable_new fresh_block_new one_alloc_eq] .

lemma reachable_two_pages: "reachable two_pages"
  using reachable_alloc[OF reachable_one_alloc fresh_block_one_alloc two_pages_eq] .

lemma top_run:
  "alloc (LinearAllocator 0) 0xFFFFB000 16000 = Inr (0xFFFFB004, top1)"
  "alloc top1 0x8000 16000 = Inr (0xFFFFEE84, top2)"
  by (simp_all add: alloc_def ensureNext_def newPage_def setNext_def LinearAllocator_def Let_def
      start_def end_p_def sizeof_Page_def TARGET_PAGE_SIZE_def)

lemma backed_alloc:
  assumes "arena_inv a" "backed a" "block_ok a buf" "alloc a buf sz = Inr (ptr, a')"
  shows "backed a'"
proof -
  from assms(1) obtain ps where i: "sizes_ok a" "pages_ok a" "chain_ok a ps" "cursor_ok a"
    by (auto simp: arena_inv_def)
  from assms(1,3) show ?thesis
  proof (cases rule: alloc_cases[where sz = sz])
    case big
    with assms(2,4) show ?thesis by simp
  next
    case fits
    with assms(4) have e: "a' = a\<lparr>m_next := m_next a + sz\<rparr>" by auto
    have "m_next a + sz \<noteq> 0"
    proof
      assume "m_next a + sz = 0"
      then have "unat (m_next a + sz) = 0" by simp
      with fits_nat(1,3)[OF i fits(1,2)] show False by simp
    qed
    then show ?thesis using assms(2) fits(2) unfolding e by (simp add: backed_def)
  next
    case new
    with assms(4) have e: "a' = (grow a buf)\<lparr>m_next := start buf + sz\<rparr>" by auto
    from assms(3) have b0: "buf \<noteq> 0" by (simp add: block_ok_def)
    have "start buf + sz \<noteq> 0"
    proof
      assume "start buf + sz = 0"
      then have "unat (start buf + sz) = 0" by simp
      with inv_grow(6)[OF i(1-3) new(1) assms(3)] show False by simp
    qed
    then show ?thesis using b0 unfolding e by (simp add: backed_def)
  qed
qed

lemma backed_rewind:
  assumes "arena_inv a" "backed a" "m_currentPage a \<noteq> 0"
  shows "backed (rewindTo a p)"
proof (cases "start (m_currentPage a) \<le> p \<and> p < end_p a (m_currentPage a)")
  case True
  then have r: "rewindTo a p = a\<lparr>m_next := p\<rparr>" by (simp add: rewindTo_def)
  from assms(1) obtain ps where i: "sizes_ok a" "pages_ok a" "chain_ok a ps"
    by (auto simp: arena_inv_def)
  have "unat (m_currentPage a) + 4 \<le> unat p"
    using True page_bounds(2)[OF i] by (simp add: word_le_nat_alt)
  then have "p \<noteq> 0" by auto
  then show ?thesis unfolding r using assms(3) by (simp add: backed_def)
next
  case False
  then have "rewindTo a p = a" by (auto simp: rewindTo_def)
  with assms(2) show ?thesis by simp
qed

lemma arena_ok_named:
  assumes "arena_ok a"
  shows "cursor_in_page a" "current_is_last a"
proof -
  from assms have inv: "arena_inv a" and bk: "backed a" by (simp_all add: arena_ok_def)
  show "cursor_in_page a"
    using inv bk by (auto simp: cursor_in_page_def arena_inv_def cursor_ok_def backed_def)
  show "current_is_last a"
    unfolding current_is_last_def using inv by (rule arena_inv_chain)
qed

lemma arena_ok_one_alloc: "arena_ok one_alloc"
  using reach_inv[OF reach_one_alloc] by (simp add: arena_ok_def)

section \<open>Further facts about the operations\<close>

text \<open>
  For a pointer for which the test in \<open>rewindTo\<close> fails, the call changes nothing.
\<close>

lemma rewindTo_outside:
  assumes "\<not> (start (m_currentPage a) \<le> p \<and> p < end_p a (m_currentPage a))"
  shows "rewindTo a p = a"
  using assms by (auto simp: rewindTo_def)

text \<open>
  The page size is the specification's value reduced modulo \<open>2 ^ 32\<close>, and the
  specification's value itself for hints below \<open>2 ^ 30 - 1\<close>; the two sizes never
  change after construction.
\<close>

lemma constructor_sizes:
  "unat (m_pageSize (LinearAllocator 0)) = 16384 \<and>
   unat (m_pageSize (LinearAllocator avg)) = spec_pageSize (unat avg) mod 2 ^ 32 \<and>
   m_maxAllocSize (LinearAllocator avg) = m_pageSize (LinearAllocator avg) - sizeof_Page \<and>
   (unat avg < 2 ^ 30 - 1 \<longrightarrow>
      unat (m_pageSize (LinearAllocator avg)) = spec_pageSize (unat avg) \<and>
      unat (m_maxAllocSize (LinearAllocator avg)) =
        unat (m_pageSize (LinearAllocator avg)) - unat sizeof_Page \<and>
      unat sizeof_Page \<le> unat (m_pageSize (LinearAllocator avg))) \<and>
   (alloc a buf sz = Inr (ptr, a') \<longrightarrow>
      m_pageSize a' = m_pageSize a \<and> m_maxAllocSize a' = m_maxAllocSize a) \<and>
   m_pageSize (rewindTo a p) = m_pageSize a \<and> m_maxAllocSize (rewindTo a p) = m_maxAllocSize a"
proof -
  have 0: "unat (m_pageSize (LinearAllocator 0)) = 16384"
    by (simp add: LinearAllocator_def TARGET_PAGE_SIZE_def)
  have 1: "unat (m_pageSize (LinearAllocator avg)) = spec_pageSize (unat avg) mod 2 ^ 32"
    by (rule pageSize_mod)
  have 2: "m_maxAllocSize (LinearAllocator avg) = m_pageSize (LinearAllocator avg) - sizeof_Page"
    by simp
  have 3: "unat (m_pageSize (LinearAllocator avg)) = spec_pageSize (unat avg) \<and>
      unat (m_maxAllocSize (LinearAllocator avg)) =
        unat (m_pageSize (LinearAllocator avg)) - unat sizeof_Page \<and>
      unat sizeof_Page \<le> unat (m_pageSize (LinearAllocator avg))"
    if h: "unat avg < 2 ^ 30 - 1"
  proof -
    let ?P = "m_pageSize (LinearAllocator avg)"
    have P: "unat ?P = spec_pageSize (unat avg)" using h by (rule pageSize_exact)
    have 4: "4 \<le> unat ?P" unfolding P by (simp add: spec_pageSize_def)
    then have le: "sizeof_Page \<le> ?P" by (simp add: word_le_nat_alt sizeof_Page_def)
    then have "unat (?P - sizeof_Page) = unat ?P - unat sizeof_Page" by (simp add: unat_sub)
    with P 4 show ?thesis by (simp add: sizeof_Page_def)
  qed
  show ?thesis using 0 1 2 3 alloc_sizes[of a buf sz ptr a'] rewindTo_sizes[of a p] by blast
qed

text \<open>
  On the arenas of \<open>reach\<close>, \<open>alloc(0)\<close> returns the cursor and does not advance it;
  with a page the arena is unchanged, without one a page is constructed and \<open>memusage\<close>
  goes from 0 to \<open>m_pageSize\<close>; a second \<open>alloc(0)\<close> returns the same pointer.
\<close>

lemma alloc_zero:
  assumes "reach a L" "block_ok a buf"
  shows "\<exists>p a'. alloc a buf 0 = Inr (p, a') \<and> p \<noteq> 0 \<and> m_next a' = p \<and>
     (m_pages a \<noteq> 0 \<longrightarrow> p = m_next a \<and> a' = a) \<and>
     (m_pages a = 0 \<longrightarrow> p = start buf \<and> dom (heap a') = {buf} \<and>
        memusage a = Some 0 \<and> memusage a' = Some (m_pageSize a)) \<and>
     (\<forall>buf'. alloc a' buf' 0 = Inr (p, a'))"
proof -
  from reach_inv[OF assms(1)] have inv: "arena_inv a" and bk: "backed a" by simp_all
  from inv obtain ps where i: "sizes_ok a" "pages_ok a" "chain_ok a ps" "cursor_ok a"
    by (auto simp: arena_inv_def)
  note cp = current_page[OF i(3)]
  show ?thesis
  proof (cases "m_pages a = 0")
    case False
    with cp(2) bk have n: "m_next a \<noteq> 0" by (simp add: backed_def)
    have "alloc a buf' 0 = Inr (m_next a, a)" for buf'
      using inv n by (rule alloc_nothing_at_cursor)
    with n False show ?thesis by blast
  next
    case True
    with cp(2) bk have n: "m_next a = 0" by (simp add: backed_def)
    from assms(2) have b0: "buf \<noteq> 0" by (simp add: block_ok_def)
    have z: "(0 :: 32 word) \<le> m_maxAllocSize a" by simp
    define a' where "a' = (grow a buf)\<lparr>m_next := start buf + 0\<rparr>"
    have e: "alloc a buf 0 = Inr (start buf, a')"
      unfolding a'_def by (rule alloc_new[OF i z b0]) (simp add: n)
    have inv': "arena_inv a'" using inv assms(2) e by (rule arena_inv_alloc)
    have s0: "start buf \<noteq> 0" by (rule inv_grow(7)[OF i(1-3) z assms(2)])
    have mn: "m_next a' = start buf" by (simp add: a'_def)
    have again: "alloc a' buf' 0 = Inr (start buf, a')" for buf'
      using alloc_nothing_at_cursor[OF inv', of buf'] s0 mn by simp
    have d: "dom (heap a') = {buf}"
      using dom_grow[OF i(3), of buf] cp(3) True by (simp add: a'_def)
    have "memusage a' = Some (of_nat (card (dom (heap a'))) * m_pageSize a')"
      using inv' by (rule memusage_value(1))
    then have m': "memusage a' = Some (m_pageSize a)" unfolding d by (simp add: a'_def)
    have m: "memusage a = Some 0" using True by (rule memusage_empty)
    show ?thesis using e s0 mn True d m m' again by blast
  qed
qed

section \<open>The claims\<close>

text \<open>
  Claim C1 says that every \<open>alloc(size)\<close> with \<open>0 < size \<le> m_maxAllocSize\<close> whose
  block allocation succeeds returns a region of \<open>size\<close> bytes. The code guards no
  pointer sum against wrapping: with the page of a default arena at 0xFFFFB000 and the
  cursor at 0xFFFFEE84 after \<open>alloc(16000)\<close>, the sum \<open>m_next + 16000\<close> wraps to
  0x2D04, passes the test in \<open>ensureNext\<close>, and the second \<open>alloc(16000)\<close> returns
  0xFFFFEE84: its 16000 bytes run past the end of the only page and past the end of the
  address space.
\<close>

theorem alloc_region_counterexample:
  "alloc (LinearAllocator 0) 0xFFFFB000 16000 = Inr (0xFFFFB004, top1) \<and>
   (0 :: 32 word) < 16000 \<and> (16000 :: 32 word) \<le> m_maxAllocSize top1 \<and>
   alloc top1 0x8000 16000 = Inr (0xFFFFEE84, top2) \<and>
   dom (heap top2) = {0xFFFFB000} \<and>
   unat (0xFFFFB000 :: addr) + unat (m_pageSize top2) < unat (0xFFFFEE84 :: addr) + unat (16000 :: 32 word) \<and>
   2 ^ 32 < unat (0xFFFFEE84 :: addr) + unat (16000 :: 32 word)"
  using top_run by simp

text \<open>
  Claim C1, amended. Take an arena of \<open>reach\<close>: built with a hint below \<open>2 ^ 29\<close>,
  by calls of \<open>alloc\<close> whose blocks are non-null, disjoint from the pages and end more
  than \<open>m_maxAllocSize\<close> bytes below the top of the address space (\<open>block_ok\<close>), and
  by calls of \<open>rewindTo\<close> made once a page exists; let \<open>L\<close> be its live regions.
  For \<open>0 < size \<le> m_maxAllocSize\<close> and such a block, \<open>alloc(size)\<close> returns a
  non-null pointer; the \<open>size\<close> bytes from it lie inside the usable range of the
  current page, which is a page of the arena whose bounds do not wrap; and they overlap
  no region of \<open>L\<close>, that is, no region returned by an earlier \<open>alloc\<close> and not
  abandoned by a \<open>rewindTo\<close> since. The new region joins the live regions.
\<close>

theorem alloc_region:
  assumes "reach a L" "0 < sz" "sz \<le> m_maxAllocSize a" "block_ok a buf"
  shows "\<exists>ptr a'. alloc a buf sz = Inr (ptr, a') \<and> ptr \<noteq> 0 \<and>
     m_currentPage a' \<in> dom (heap a') \<and>
     unat (start (m_currentPage a')) = unat (m_currentPage a') + unat sizeof_Page \<and>
     unat (end_p a' (m_currentPage a')) = unat (m_currentPage a') + unat (m_pageSize a') \<and>
     unat (start (m_currentPage a')) \<le> unat ptr \<and>
     unat ptr + unat sz \<le> unat (end_p a' (m_currentPage a')) \<and>
     (\<forall>(pg, q, n) \<in> set L. unat q + unat n \<le> unat ptr \<or> unat ptr + unat sz \<le> unat q) \<and>
     reach a' ((m_currentPage a', ptr, sz) # L)"
proof -
  from reach_inv[OF assms(1)] have inv: "arena_inv a" by simp
  from alloc_total[OF inv assms(4)] obtain ptr a' where e: "alloc a buf sz = Inr (ptr, a')"
    by blast
  have p0: "ptr \<noteq> 0" using inv assms(4,3) e by (rule alloc_ptr_nonzero)
  have r': "reach a' ((m_currentPage a', ptr, sz) # L)"
    using reach_alloc[OF assms(1,4) e] p0 by simp
  from reach_inv[OF r'] have inv': "arena_inv a'"
    and lv': "live_ok a' ((m_currentPage a', ptr, sz) # L)" by simp_all
  from inv' obtain ps where i: "sizes_ok a'" "pages_ok a'" "chain_ok a' ps"
    by (auto simp: arena_inv_def)
  note pb = page_bounds[OF i]
  from lv' have g: "m_currentPage a' \<in> dom (heap a')" "unat (m_currentPage a') + 4 \<le> unat ptr"
    "unat ptr + unat sz \<le> unat (m_currentPage a') + unat (m_pageSize a')"
    by (simp_all add: live_ok_def)
  have d: "\<forall>(pg, q, n) \<in> set L. unat q + unat n \<le> unat ptr \<or> unat ptr + unat sz \<le> unat q"
    using regions_disjoint[OF i(2) lv'] by blast
  have "unat (start (m_currentPage a')) = unat (m_currentPage a') + unat sizeof_Page"
    using pb(2) by (simp add: sizeof_Page_def)
  with e p0 g pb d r' show ?thesis by (intro exI conjI) simp_all
qed

theorem alloc_region_witness:
  "reach one_alloc [(0x1000, 0x1004, 100)] \<and> block_ok one_alloc 0x8000 \<and>
   (\<exists>ptr a'. alloc one_alloc 0x8000 50 = Inr (ptr, a') \<and> ptr \<noteq> 0 \<and>
      (unat (0x1004 :: addr) + unat (100 :: 32 word) \<le> unat ptr \<or>
       unat ptr + unat (50 :: 32 word) \<le> unat (0x1004 :: addr)))"
proof -
  have s: "(0 :: 32 word) < 50" "(50 :: 32 word) \<le> m_maxAllocSize one_alloc" by simp_all
  from alloc_region[OF reach_one_alloc s block_ok_one_alloc]
  obtain ptr a' where h: "alloc one_alloc 0x8000 50 = Inr (ptr, a')" "ptr \<noteq> 0"
    "\<forall>(pg, q, n) \<in> set [(0x1000 :: addr, 0x1004 :: addr, 100 :: 32 word)].
       unat q + unat n \<le> unat ptr \<or> unat ptr + unat (50 :: 32 word) \<le> unat q"
    by blast
  from h(3) have "unat (0x1004 :: addr) + unat (100 :: 32 word) \<le> unat ptr \<or>
       unat ptr + unat (50 :: 32 word) \<le> unat (0x1004 :: addr)" by simp
  with h(1,2) have "\<exists>ptr a'. alloc one_alloc 0x8000 50 = Inr (ptr, a') \<and> ptr \<noteq> 0 \<and>
      (unat (0x1004 :: addr) + unat (100 :: 32 word) \<le> unat ptr \<or>
       unat ptr + unat (50 :: 32 word) \<le> unat (0x1004 :: addr))" by blast
  with reach_one_alloc block_ok_one_alloc show ?thesis by blast
qed

text \<open>
  Claim C2. A request larger than \<open>m_maxAllocSize\<close> makes \<open>alloc\<close> return the null
  pointer and leave the allocator as it was: the heap of pages, the chain head, the
  current page and the cursor are unchanged, and \<open>memusage\<close> gives the same value.
  No block is requested, so the statement holds for every \<open>buf\<close>.
\<close>

theorem alloc_oversized:
  assumes "m_maxAllocSize a < sz"
  shows "\<exists>a'. alloc a buf sz = Inr (0, a') \<and> a' = a \<and> heap a' = heap a \<and>
     m_pages a' = m_pages a \<and> m_currentPage a' = m_currentPage a \<and>
     m_next a' = m_next a \<and> memusage a' = memusage a"
  using assms by (simp add: alloc_def)

theorem alloc_oversized_witness:
  "m_maxAllocSize one_alloc < 16381 \<and> alloc one_alloc 0x8000 16381 = Inr (0, one_alloc)"
proof -
  have h: "m_maxAllocSize one_alloc < 16381" by simp
  from alloc_oversized[OF h, of "0x8000"] h show ?thesis by simp
qed

text \<open>
  Claim C3 says that the bytes carved from one page never exceed its usable capacity and
  that a request which does not fit takes a new page. With the page of a default arena
  at 0xFFFFB000 and the cursor at 0xFFFFEE84 after \<open>alloc(16000)\<close>, the cursor plus
  16000 exceeds the page's end 0xFFFFF000, yet the sum wraps and passes the test in
  \<open>ensureNext\<close>: no page is constructed, and the two regions carved from the page sum
  to 32000 bytes, more than its capacity of 16380.
\<close>

theorem page_capacity_counterexample:
  "alloc (LinearAllocator 0) 0xFFFFB000 16000 = Inr (0xFFFFB004, top1) \<and>
   unat (end_p top1 (m_currentPage top1)) < unat (m_next top1) + unat (16000 :: 32 word) \<and>
   alloc top1 0x8000 16000 = Inr (0xFFFFEE84, top2) \<and>
   heap top2 = heap top1 \<and> m_currentPage top2 = m_currentPage top1 \<and>
   carved 0xFFFFB000 [(0xFFFFB000, 0xFFFFEE84, 16000), (0xFFFFB000, 0xFFFFB004, 16000)] = 32000 \<and>
   unat (m_pageSize top2) - unat sizeof_Page = 16380"
  using top_run by (simp add: carved_def end_p_def sizeof_Page_def)

text \<open>
  Claim C3, amended. Take an arena of \<open>reach\<close>: built with a hint below \<open>2 ^ 29\<close>,
  by calls of \<open>alloc\<close> with \<open>block_ok\<close> blocks and by calls of \<open>rewindTo\<close> made
  once a page exists. The sizes of the live regions carved from any one page sum to at
  most \<open>m_pageSize - sizeof(Page)\<close>; in a run of \<open>alloc\<close> calls alone every region returned is live, so
  this is the sum of all bytes carved from the page. When no page exists yet, or the
  cursor plus \<open>size\<close> exceeds the current page's end, \<open>alloc(size)\<close> with a
  \<open>block_ok\<close> block constructs exactly one new page at that block, appends it as the
  last page of the chain, makes it the current page, and carves from its usable start.
  When the request fits the current page, no page is constructed and the region starts
  at the cursor.
\<close>

theorem page_capacity:
  assumes "reach a L" "sz \<le> m_maxAllocSize a" "block_ok a buf"
  shows "(\<forall>pg. carved pg L \<le> unat (m_pageSize a) - unat sizeof_Page) \<and>
     (m_pages a = 0 \<or> unat (end_p a (m_currentPage a)) < unat (m_next a) + unat sz \<longrightarrow>
        (\<exists>a'. alloc a buf sz = Inr (start buf, a') \<and> buf \<notin> dom (heap a) \<and>
           dom (heap a') = insert buf (dom (heap a)) \<and> heap a' buf = Some 0 \<and>
           m_currentPage a' = buf \<and> m_next a' = start buf + sz \<and>
           (\<forall>ps. chain (heap a) (m_pages a) ps \<longrightarrow>
              chain (heap a') (m_pages a') (ps @ [buf])))) \<and>
     (m_pages a \<noteq> 0 \<and> unat (m_next a) + unat sz \<le> unat (end_p a (m_currentPage a)) \<longrightarrow>
        (\<exists>a'. alloc a buf sz = Inr (m_next a, a') \<and> heap a' = heap a \<and>
           m_pages a' = m_pages a \<and> m_currentPage a' = m_currentPage a \<and>
           m_next a' = m_next a + sz))"
proof -
  from reach_inv[OF assms(1)] have inv: "arena_inv a" and bk: "backed a" and lv: "live_ok a L"
    by simp_all
  from inv obtain ps where i: "sizes_ok a" "pages_ok a" "chain_ok a ps" "cursor_ok a"
    by (auto simp: arena_inv_def)
  note cp = current_page[OF i(3)]
  note pb = page_bounds[OF i(1-3)]
  have 1: "\<forall>pg. carved pg L \<le> unat (m_pageSize a) - unat sizeof_Page"
    using carved_capacity[OF i(1) lv] by blast
  have 2: "\<exists>a'. alloc a buf sz = Inr (start buf, a') \<and> buf \<notin> dom (heap a) \<and>
           dom (heap a') = insert buf (dom (heap a)) \<and> heap a' buf = Some 0 \<and>
           m_currentPage a' = buf \<and> m_next a' = start buf + sz \<and>
           (\<forall>ps. chain (heap a) (m_pages a) ps \<longrightarrow>
              chain (heap a') (m_pages a') (ps @ [buf]))"
    if h: "m_pages a = 0 \<or> unat (end_p a (m_currentPage a)) < unat (m_next a) + unat sz"
  proof -
    let ?a' = "(grow a buf)\<lparr>m_next := start buf + sz\<rparr>"
    from assms(3) have b0: "buf \<noteq> 0" and bd: "\<forall>p \<in> dom (heap a).
        unat p + unat (m_pageSize a) \<le> unat buf \<or> unat buf + unat (m_pageSize a) \<le> unat p"
      by (simp_all add: block_ok_def)
    have f: "m_next a = 0 \<or>
        unat (m_currentPage a) + unat (m_pageSize a) < unat (m_next a) + unat sz"
      using h cp(2) bk pb(3) by (auto simp: backed_def)
    have e: "alloc a buf sz = Inr (start buf, ?a')" by (rule alloc_new[OF i assms(2) b0 f])
    have bn: "buf \<notin> dom (heap a)"
    proof
      assume "buf \<in> dom (heap a)"
      with bd have "unat buf + unat (m_pageSize a) \<le> unat buf" by blast
      with sizes_nat(1)[OF i(1)] show False by simp
    qed
    have d: "dom (heap ?a') = insert buf (dom (heap a))" using dom_grow[OF i(3), of buf] by simp
    have cb: "m_currentPage a \<noteq> buf" using cp(1) bn b0 by auto
    have hb: "heap ?a' buf = Some 0" using cb by (simp add: grow_def)
    have c: "chain (heap ?a') (m_pages ?a') (ps @ [buf])"
      using inv_grow(3)[OF i(1-3) assms(2,3)] by (simp add: chain_ok_def)
    have "chain (heap ?a') (m_pages ?a') (qs @ [buf])" if q: "chain (heap a) (m_pages a) qs" for qs
    proof -
      from i(3) have "chain (heap a) (m_pages a) ps" by (simp add: chain_ok_def)
      with q have "qs = ps" by (rule chain_functional)
      with c show ?thesis by simp
    qed
    with e bn d hb show ?thesis by (intro exI[of _ ?a'] conjI) simp_all
  qed
  have 3: "\<exists>a'. alloc a buf sz = Inr (m_next a, a') \<and> heap a' = heap a \<and>
           m_pages a' = m_pages a \<and> m_currentPage a' = m_currentPage a \<and>
           m_next a' = m_next a + sz"
    if h: "m_pages a \<noteq> 0 \<and> unat (m_next a) + unat sz \<le> unat (end_p a (m_currentPage a))"
  proof -
    from h cp(2) bk have n: "m_next a \<noteq> 0" by (simp add: backed_def)
    from h pb(3) have f: "unat (m_next a) + unat sz \<le> unat (m_currentPage a) + unat (m_pageSize a)"
      by simp
    from alloc_fits[OF i assms(2) n f, of buf] show ?thesis by simp
  qed
  show ?thesis using 1 2 3 by blast
qed

theorem page_capacity_witness:
  "reach one_alloc [(0x1000, 0x1004, 100)] \<and> (16300 :: 32 word) \<le> m_maxAllocSize one_alloc \<and>
   block_ok one_alloc 0x8000 \<and>
   carved 0x1000 [(0x1000, 0x1004, 100)] \<le> 16380 \<and>
   (\<exists>a'. alloc one_alloc 0x8000 16300 = Inr (0x8004, a') \<and> m_currentPage a' = 0x8000 \<and>
      chain (heap a') (m_pages a') [0x1000, 0x8000])"
proof -
  have s: "(16300 :: 32 word) \<le> m_maxAllocSize one_alloc" by simp
  note t = page_capacity[OF reach_one_alloc s block_ok_one_alloc]
  from t have "carved 0x1000 [(0x1000, 0x1004, 100)] \<le>
      unat (m_pageSize one_alloc) - unat sizeof_Page" by blast
  then have 1: "carved 0x1000 [(0x1000, 0x1004, 100)] \<le> 16380" by (simp add: sizeof_Page_def)
  have f: "unat (end_p one_alloc (m_currentPage one_alloc)) <
      unat (m_next one_alloc) + unat (16300 :: 32 word)"
    by (simp add: end_p_def)
  have c: "chain (heap one_alloc) (m_pages one_alloc) [0x1000]" by simp
  from t f obtain a' where h: "alloc one_alloc 0x8000 16300 = Inr (start 0x8000, a')"
    "m_currentPage a' = 0x8000"
    "\<forall>ps. chain (heap one_alloc) (m_pages one_alloc) ps \<longrightarrow>
       chain (heap a') (m_pages a') (ps @ [0x8000])"
    by blast
  from h(3) c have "chain (heap a') (m_pages a') ([0x1000] @ [0x8000])" by blast
  with h(1,2) have "alloc one_alloc 0x8000 16300 = Inr (0x8004, a') \<and> m_currentPage a' = 0x8000 \<and>
      chain (heap a') (m_pages a') [0x1000, 0x8000]"
    by (simp add: start_def sizeof_Page_def)
  then have "\<exists>a'. alloc one_alloc 0x8000 16300 = Inr (0x8004, a') \<and> m_currentPage a' = 0x8000 \<and>
      chain (heap a') (m_pages a') [0x1000, 0x8000]" ..
  with reach_one_alloc s block_ok_one_alloc 1 show ?thesis by blast
qed

text \<open>
  Claim C4. In every arena that the constructor, \<open>alloc\<close> and \<open>rewindTo\<close> can
  produce (\<open>reachable\<close>: any hint, any size, any pointer, any fresh block),
  \<open>memusage\<close> terminates and returns \<open>m_pageSize\<close> times the number of pages
  constructed so far, as a product of numbers: the 32-bit counter does not wrap, because
  the pages are disjoint blocks of one address space. It does not decrease across
  \<open>alloc\<close>, and \<open>rewindTo\<close> leaves it unchanged.
\<close>

theorem memusage_pages:
  assumes "reachable a"
  shows "(\<exists>m. memusage a = Some m \<and> unat m = unat (m_pageSize a) * card (dom (heap a))) \<and>
     (fresh_block a buf \<and> alloc a buf sz = Inr (ptr, a') \<longrightarrow>
        (\<exists>m m'. memusage a = Some m \<and> memusage a' = Some m' \<and> m \<le> m')) \<and>
     memusage (rewindTo a p) = memusage a"
proof -
  note v = memusage_reachable[OF assms]
  have 1: "\<exists>m. memusage a = Some m \<and> unat m = unat (m_pageSize a) * card (dom (heap a))"
    using v(1,2) by (simp add: mult.commute)
  have 2: "\<exists>m m'. memusage a = Some m \<and> memusage a' = Some m' \<and> m \<le> m'"
    if b: "fresh_block a buf" and e: "alloc a buf sz = Inr (ptr, a')"
  proof -
    have r': "reachable a'" using assms b e by (rule reachable_alloc)
    note v' = memusage_reachable[OF r']
    have P: "m_pageSize a' = m_pageSize a" using alloc_sizes[OF e] by simp
    have "card (dom (heap a)) \<le> card (dom (heap a'))"
      using alloc_dom_subset[OF e assms] v'(3) by (rule card_mono[rotated])
    then have "card (dom (heap a)) * unat (m_pageSize a) \<le> card (dom (heap a')) * unat (m_pageSize a)"
      by (rule mult_le_mono1)
    then have "of_nat (card (dom (heap a))) * m_pageSize a \<le>
        of_nat (card (dom (heap a'))) * m_pageSize a'"
      using v(2) v'(2) unfolding P by (simp add: word_le_nat_alt)
    with v(1) v'(1) show ?thesis by simp
  qed
  show ?thesis using 1 2 memusage_rewindTo[of a p] by blast
qed

theorem memusage_pages_witness:
  "reachable two_pages \<and> card (dom (heap two_pages)) = 2 \<and>
   (\<exists>m. memusage two_pages = Some m \<and> unat m = 16384 * 2) \<and>
   fresh_block one_alloc 0x8000 \<and> alloc one_alloc 0x8000 16300 = Inr (0x8004, two_pages) \<and>
   (\<exists>m m'. memusage one_alloc = Some m \<and> memusage two_pages = Some m' \<and> m \<le> m')"
proof -
  have c: "card (dom (heap two_pages)) = 2" by simp
  from memusage_pages[OF reachable_two_pages]
  have "\<exists>m. memusage two_pages = Some m \<and>
      unat m = unat (m_pageSize two_pages) * card (dom (heap two_pages))"
    by blast
  then have 1: "\<exists>m. memusage two_pages = Some m \<and> unat m = 16384 * 2"
    unfolding c by simp
  from memusage_pages[OF reachable_one_alloc, of "0x8000" 16300 "0x8004" two_pages]
    fresh_block_one_alloc two_pages_eq
  have 2: "\<exists>m m'. memusage one_alloc = Some m \<and> memusage two_pages = Some m' \<and> m \<le> m'"
    by blast
  from reachable_two_pages c 1 fresh_block_one_alloc two_pages_eq 2 show ?thesis by blast
qed

text \<open>
  Claim C5 says that a positive hint yields \<open>pageSize = count * averageAllocSize +
  headerSize\<close> with a count of at least four, and \<open>maxAllocSize = pageSize -
  headerSize\<close>. The constructor computes the product and the sum in 32-bit \<open>size_t\<close>
  and does not guard them: for the hint \<open>2 ^ 30\<close> the count is 4, the sum
  \<open>4 * 2 ^ 30 + 4\<close> wraps to 4 and \<open>m_maxAllocSize\<close> is 0, a page that holds no
  object although the code's comment on \<open>MIN_OBJECT_COUNT\<close> asks for room for four;
  for the hint \<open>2 ^ 30 - 1\<close> the page size is 0 and \<open>m_maxAllocSize\<close> is
  0xFFFFFFFC. The theorem evaluates the constructor at both hints.
\<close>

theorem constructor_overflow:
  "m_pageSize (LinearAllocator 0x40000000) = 4 \<and>
   m_maxAllocSize (LinearAllocator 0x40000000) = 0 \<and>
   spec_pageSize (unat (0x40000000 :: 32 word)) = 4294967300 \<and>
   unat (m_pageSize (LinearAllocator 0x40000000)) \<noteq> spec_pageSize (unat (0x40000000 :: 32 word)) \<and>
   m_pageSize (LinearAllocator 0x3FFFFFFF) = 0 \<and>
   m_maxAllocSize (LinearAllocator 0x3FFFFFFF) = 0xFFFFFFFC"
  by (simp add: LinearAllocator_def Let_def sizeof_Page_def TARGET_PAGE_SIZE_def
      MIN_OBJECT_COUNT_def word_sless_alt spec_pageSize_def spec_count_def)

text \<open>
  Claim C6 says that \<open>rewindTo\<close> never moves the cursor forward once a page exists.
  The code compares the pointer with the bounds of the current page only, never with
  \<open>m_next\<close>: after \<open>alloc(100)\<close> on a fresh default arena with its page at 0x1000 the
  cursor is 0x1068, and \<open>rewindTo(0x2000)\<close> moves it forward to 0x2000.
\<close>

theorem rewindTo_forward_counterexample:
  "alloc (LinearAllocator 0) 0x1000 100 = Inr (0x1004, one_alloc) \<and>
   m_currentPage one_alloc \<noteq> 0 \<and> m_next one_alloc = 0x1068 \<and>
   m_next (rewindTo one_alloc 0x2000) = 0x2000 \<and>
   \<not> m_next (rewindTo one_alloc 0x2000) \<le> m_next one_alloc"
  using one_alloc_eq by (simp add: rewindTo_def start_def end_p_def sizeof_Page_def)

text \<open>
  Claim C6, amended. \<open>rewindTo(p)\<close> leaves the cursor unchanged or sets it to \<open>p\<close>;
  the cursor after the call is at most the cursor before whenever \<open>p\<close> is at most the
  cursor before; a pointer inside the current page's range and above the cursor moves
  the cursor forward to it.
\<close>

theorem rewindTo_cursor:
  "(m_next (rewindTo a p) = m_next a \<or> m_next (rewindTo a p) = p) \<and>
   (p \<le> m_next a \<longrightarrow> m_next (rewindTo a p) \<le> m_next a) \<and>
   (start (m_currentPage a) \<le> p \<and> p < end_p a (m_currentPage a) \<and> m_next a < p \<longrightarrow>
      m_next (rewindTo a p) = p \<and> m_next a < m_next (rewindTo a p))"
  by (simp add: rewindTo_def)

theorem rewindTo_cursor_witness:
  "0x1010 \<le> m_next one_alloc \<and> m_next (rewindTo one_alloc 0x1010) \<le> m_next one_alloc \<and>
   m_next (rewindTo one_alloc 0x1010) = 0x1010"
  using rewindTo_cursor[of one_alloc "0x1010"]
  by (simp add: rewindTo_def start_def end_p_def sizeof_Page_def)



text \<open>
  Claim C8 says that \<open>rewindTo\<close> with a pointer outside the current page's usable range
  changes nothing. A fresh arena has no page, so no pointer lies in a current page's
  range; but \<open>rewindTo\<close>, unlike \<open>ensureNext\<close>, does not test \<open>m_currentPage\<close> for
  null, and compares the pointer with \<open>start(NULL) = 4\<close> and \<open>end(NULL) =
  m_pageSize\<close>. The theorem evaluates the code there: \<open>rewindTo(100)\<close> on a fresh
  default arena sets the cursor to 100, and the next \<open>alloc(10)\<close> returns the pointer
  100 without any page.
\<close>

theorem rewindTo_fresh_arena:
  "m_pages (LinearAllocator 0) = 0 \<and> m_currentPage (LinearAllocator 0) = 0 \<and>
   heap (LinearAllocator 0) = Map.empty \<and> m_next (LinearAllocator 0) = 0 \<and>
   rewindTo (LinearAllocator 0) 100 \<noteq> LinearAllocator 0 \<and>
   m_next (rewindTo (LinearAllocator 0) 100) = 100 \<and>
   alloc (rewindTo (LinearAllocator 0) 100) 0x1000 10 =
     Inr (100, (LinearAllocator 0)\<lparr>m_next := 110\<rparr>)"
proof -
  have m: "m_next (rewindTo (LinearAllocator 0) 100) = 100"
    by (simp add: rewindTo_def LinearAllocator_def Let_def start_def end_p_def sizeof_Page_def
        TARGET_PAGE_SIZE_def)
  then have "m_next (rewindTo (LinearAllocator 0) 100) \<noteq> m_next (LinearAllocator 0)" by simp
  then have n: "rewindTo (LinearAllocator 0) 100 \<noteq> LinearAllocator 0" by metis
  have a: "alloc (rewindTo (LinearAllocator 0) 100) 0x1000 10 =
     Inr (100, (LinearAllocator 0)\<lparr>m_next := 110\<rparr>)"
    by (simp add: alloc_def ensureNext_def rewindTo_def LinearAllocator_def Let_def
      start_def end_p_def sizeof_Page_def TARGET_PAGE_SIZE_def)
  from m n a show ?thesis by simp
qed

text \<open>
  Claim C9 says that every operation preserves the two invariants of the data model.
  On a default arena whose page is at 0xFFFFB000 both hold after the first
  \<open>alloc(16000)\<close>: the cursor 0xFFFFEE84 lies in the range of the current page, which
  is the only page of the chain. The second \<open>alloc(16000)\<close> leaves the cursor at 0x2D04, below the
  start of the current page.
\<close>

theorem invariants_break_counterexample:
  "alloc (LinearAllocator 0) 0xFFFFB000 16000 = Inr (0xFFFFB004, top1) \<and>
   m_currentPage top1 \<noteq> 0 \<and>
   start (m_currentPage top1) \<le> m_next top1 \<and> m_next top1 \<le> end_p top1 (m_currentPage top1) \<and>
   chain (heap top1) (m_pages top1) [m_currentPage top1] \<and>
   alloc top1 0x8000 16000 = Inr (0xFFFFEE84, top2) \<and>
   m_next top2 \<noteq> 0 \<and> \<not> start (m_currentPage top2) \<le> m_next top2"
  using top_run by (simp add: start_def end_p_def sizeof_Page_def)

text \<open>
  Claim C9, amended. The two invariants are preserved together with the conditions on
  sizes and pages that \<open>arena_ok\<close> adds. The constructor establishes \<open>arena_ok\<close>
  for hints below \<open>2 ^ 29\<close>; \<open>arena_ok\<close> implies both invariants; \<open>alloc\<close>, for
  every size and every \<open>block_ok\<close> block, returns and yields an arena that satisfies
  \<open>arena_ok\<close> and whose chain extends the old one at its end; \<open>rewindTo\<close>, for every
  pointer once a page exists, yields an arena that satisfies \<open>arena_ok\<close> and has the
  same pages, chain head and current page. \<open>memusage\<close> is a function of the arena and
  returns no new arena.
\<close>

theorem invariants_preserved:
  "(sane_hint avg \<longrightarrow> arena_ok (LinearAllocator avg)) \<and>
   (arena_ok a \<longrightarrow>
      cursor_in_page a \<and> current_is_last a \<and>
      (block_ok a buf \<longrightarrow>
         (\<exists>ptr a'. alloc a buf sz = Inr (ptr, a') \<and> arena_ok a' \<and>
            (\<forall>ps. chain (heap a) (m_pages a) ps \<longrightarrow>
               (\<exists>qs. chain (heap a') (m_pages a') (ps @ qs))))) \<and>
      (m_currentPage a \<noteq> 0 \<longrightarrow>
         arena_ok (rewindTo a p) \<and> heap (rewindTo a p) = heap a \<and>
         m_pages (rewindTo a p) = m_pages a \<and>
         m_currentPage (rewindTo a p) = m_currentPage a))"
proof -
  have 0: "arena_ok (LinearAllocator avg)" if "sane_hint avg"
    using arena_inv_new[OF that] by (simp add: arena_ok_def backed_def)
  have 1: "\<exists>ptr a'. alloc a buf sz = Inr (ptr, a') \<and> arena_ok a' \<and>
            (\<forall>ps. chain (heap a) (m_pages a) ps \<longrightarrow>
               (\<exists>qs. chain (heap a') (m_pages a') (ps @ qs)))"
    if ok: "arena_ok a" and b: "block_ok a buf"
  proof -
    from ok have inv: "arena_inv a" and bk: "backed a" by (simp_all add: arena_ok_def)
    from alloc_total[OF inv b] obtain ptr a' where e: "alloc a buf sz = Inr (ptr, a')"
      by blast
    have "arena_inv a'" using inv b e by (rule arena_inv_alloc)
    moreover have "backed a'" using inv bk b e by (rule backed_alloc)
    moreover have "\<forall>ps. chain (heap a) (m_pages a) ps \<longrightarrow>
        (\<exists>qs. chain (heap a') (m_pages a') (ps @ qs))"
      using alloc_chain_extends[OF inv b e] by blast
    ultimately show ?thesis using e by (auto simp: arena_ok_def)
  qed
  have 2: "arena_ok (rewindTo a p)" if ok: "arena_ok a" and c: "m_currentPage a \<noteq> 0"
  proof -
    from ok have inv: "arena_inv a" and bk: "backed a" by (simp_all add: arena_ok_def)
    show ?thesis
      using arena_inv_rewind[OF inv, of p] backed_rewind[OF inv bk c, of p]
      by (simp add: arena_ok_def)
  qed
  have 3: "heap (rewindTo a p) = heap a \<and> m_pages (rewindTo a p) = m_pages a \<and>
      m_currentPage (rewindTo a p) = m_currentPage a"
    by (simp add: rewindTo_def)
  show ?thesis using 0 1 2 3 arena_ok_named[of a] by blast
qed

theorem invariants_preserved_witness:
  "sane_hint 0 \<and> arena_ok (LinearAllocator 0) \<and>
   arena_ok one_alloc \<and> block_ok one_alloc 0x8000 \<and> m_currentPage one_alloc \<noteq> 0 \<and>
   cursor_in_page one_alloc \<and> current_is_last one_alloc \<and>
   (\<exists>ptr a'. alloc one_alloc 0x8000 16300 = Inr (ptr, a') \<and> arena_ok a') \<and>
   arena_ok (rewindTo one_alloc 0x1010)"
proof -
  have c: "m_currentPage one_alloc \<noteq> 0" by simp
  from invariants_preserved[of 0 one_alloc "0x8000" 16300 "0x1010"]
    sane_hint_0 arena_ok_one_alloc block_ok_one_alloc c
  show ?thesis by blast
qed

text \<open>
  Claim C10 says that \<open>alloc(0)\<close> returns the cursor without advancing it, so that two
  consecutive calls return the same pointer, and that it allocates a page when none
  exists. The theorem evaluates the code where two defects break this. The arena built
  with the hint \<open>2 ^ 30 - 1\<close> has the page size 0, because the constructor's sum
  wraps: the start of a page lies past its end, and two consecutive \<open>alloc(0)\<close> take
  two pages and return 0x1004 and 0x8004. After \<open>rewindTo(100)\<close> on a fresh default
  arena, which plants the cursor 100 for want of a null test, \<open>alloc(0)\<close> returns 100
  and allocates no page although none exists.
\<close>

theorem alloc_zero_defects:
  "m_pageSize (LinearAllocator 0x3FFFFFFF) = 0 \<and>
   alloc (LinearAllocator 0x3FFFFFFF) 0x1000 0 = Inr (0x1004, zero1) \<and>
   alloc zero1 0x8000 0 = Inr (0x8004, zero2) \<and>
   (0x8004 :: addr) \<noteq> 0x1004 \<and> card (dom (heap zero2)) = 2 \<and>
   m_pages (rewindTo (LinearAllocator 0) 100) = 0 \<and>
   alloc (rewindTo (LinearAllocator 0) 100) 0x1000 0 = Inr (100, rewindTo (LinearAllocator 0) 100) \<and>
   heap (rewindTo (LinearAllocator 0) 100) = Map.empty"
proof -
  have 1: "m_pageSize (LinearAllocator 0x3FFFFFFF) = 0 \<and>
      alloc (LinearAllocator 0x3FFFFFFF) 0x1000 0 = Inr (0x1004, zero1)"
    by (simp add: alloc_def ensureNext_def newPage_def setNext_def LinearAllocator_def Let_def
        start_def end_p_def sizeof_Page_def TARGET_PAGE_SIZE_def MIN_OBJECT_COUNT_def
        word_sless_alt)
  have 2: "alloc zero1 0x8000 0 = Inr (0x8004, zero2)"
    by (simp add: alloc_def ensureNext_def newPage_def setNext_def Let_def
        start_def end_p_def sizeof_Page_def)
  have 3: "card (dom (heap zero2)) = 2" by simp
  have 4: "m_pages (rewindTo (LinearAllocator 0) 100) = 0 \<and>
      alloc (rewindTo (LinearAllocator 0) 100) 0x1000 0 =
        Inr (100, rewindTo (LinearAllocator 0) 100) \<and>
      heap (rewindTo (LinearAllocator 0) 100) = Map.empty"
    by (simp add: alloc_def ensureNext_def rewindTo_def LinearAllocator_def Let_def
        start_def end_p_def sizeof_Page_def TARGET_PAGE_SIZE_def)
  from 1 2 3 4 show ?thesis by simp
qed

end
